theory Spec2Isabelle
  imports Main "HOL-Library.Code_Target_Numeral"
begin

section \<open>Characters and the string primitives of Python\<close>

text \<open>
  The source is Python: \<open>str\<close> is a sequence of code points. The embedding uses
  \<^typ>\<open>string\<close> and covers ASCII text, where one \<^typ>\<open>char\<close> is one code point.
  On ASCII, \<open>str.isspace\<close> and the regular-expression class \<open>\s\<close> hold for the
  codes 9 to 13, 28 to 31 and 32; the class \<open>\w\<close> is \<open>[A-Za-z0-9_]\<close>. Codes from
  128 on are kept opaque: no whitespace, no word character, no case.
\<close>

definition is_space :: "char \<Rightarrow> bool" where
  "is_space c = (let n = (of_char c :: nat) in (9 \<le> n \<and> n \<le> 13) \<or> (28 \<le> n \<and> n \<le> 32))"

definition is_upper :: "char \<Rightarrow> bool" where
  "is_upper c = (let n = (of_char c :: nat) in 65 \<le> n \<and> n \<le> 90)"

definition is_lower :: "char \<Rightarrow> bool" where
  "is_lower c = (let n = (of_char c :: nat) in 97 \<le> n \<and> n \<le> 122)"

definition is_digit :: "char \<Rightarrow> bool" where
  "is_digit c = (let n = (of_char c :: nat) in 48 \<le> n \<and> n \<le> 57)"

definition is_word :: "char \<Rightarrow> bool" where
  "is_word c = (is_upper c \<or> is_lower c \<or> is_digit c \<or> c = CHR ''_'')"

text \<open>The class \<open>[\w-]\<close> of attribute and entity names.\<close>

definition is_name_char :: "char \<Rightarrow> bool" where
  "is_name_char c = (is_word c \<or> c = CHR ''-'')"

definition lower_char :: "char \<Rightarrow> char" where
  "lower_char c = (if is_upper c then char_of ((of_char c :: nat) + 32) else c)"

definition upper_char :: "char \<Rightarrow> char" where
  "upper_char c = (if is_lower c then char_of ((of_char c :: nat) - 32) else c)"

definition lower :: "string \<Rightarrow> string" where
  "lower s = map lower_char s"

text \<open>A literal matched under \<open>re.IGNORECASE\<close> at the head of the text.\<close>

fun prefix_ci :: "string \<Rightarrow> string \<Rightarrow> bool" where
  "prefix_ci [] s = True"
| "prefix_ci (p # ps) [] = False"
| "prefix_ci (p # ps) (c # cs) = (lower_char p = lower_char c \<and> prefix_ci ps cs)"

text \<open>\<open>str.strip\<close>, \<open>str.rstrip\<close>, with the stripped characters as a predicate.\<close>

definition rstrip_with :: "(char \<Rightarrow> bool) \<Rightarrow> string \<Rightarrow> string" where
  "rstrip_with P s = rev (dropWhile P (rev s))"

definition strip_with :: "(char \<Rightarrow> bool) \<Rightarrow> string \<Rightarrow> string" where
  "strip_with P s = rstrip_with P (dropWhile P s)"

definition strip :: "string \<Rightarrow> string" where
  "strip s = strip_with is_space s"

definition strip_chars :: "string \<Rightarrow> string \<Rightarrow> string" where
  "strip_chars cs s = strip_with (\<lambda>c. c \<in> set cs) s"

definition rstrip_chars :: "string \<Rightarrow> string \<Rightarrow> string" where
  "rstrip_chars cs s = rstrip_with (\<lambda>c. c \<in> set cs) s"

text \<open>\<open>str.split()\<close>: the maximal runs of non-whitespace characters.\<close>

function split_ws :: "string \<Rightarrow> string list" where
  "split_ws s =
     (let t = dropWhile is_space s in
      if t = [] then []
      else takeWhile (\<lambda>c. \<not> is_space c) t # split_ws (dropWhile (\<lambda>c. \<not> is_space c) t))"
  by pat_completeness auto
termination
proof (relation "measure length")
  fix s t :: string
  assume t: "t = dropWhile is_space s" and ne: "t \<noteq> []"
  from ne have "\<not> is_space (hd t)"
    unfolding t by (rule hd_dropWhile)
  with ne have "length (dropWhile (\<lambda>c. \<not> is_space c) t) < length t"
    by (cases t) (simp_all add: length_dropWhile_le less_Suc_eq_le)
  also have "length t \<le> length s"
    unfolding t by (rule length_dropWhile_le)
  finally show "(dropWhile (\<lambda>c. \<not> is_space c) t, s) \<in> measure length"
    by simp
qed simp

declare split_ws.simps [simp del]

text \<open>\<open>" ".join(words)\<close>.\<close>

fun join_sp :: "string list \<Rightarrow> string" where
  "join_sp [] = []"
| "join_sp [w] = w"
| "join_sp (w # v # ws) = w @ CHR '' '' # join_sp (v # ws)"

text \<open>\<open>str.rfind(c)\<close> for a single character: the last index, or nothing (Python's -1).\<close>

definition rfind :: "string \<Rightarrow> char \<Rightarrow> nat option" where
  "rfind s c =
     (if c \<in> set s then Some (length s - 1 - length (takeWhile (\<lambda>x. x \<noteq> c) (rev s)))
      else None)"

text \<open>
  \<open>str.replace(old, new)\<close>: the occurrences of \<open>old\<close> from the left, not overlapping.
  The source calls it with a non-empty \<open>old\<close> only.
\<close>

fun replace :: "string \<Rightarrow> string \<Rightarrow> string \<Rightarrow> string" where
  "replace old new [] = []"
| "replace old new (c # cs) =
     (if old \<noteq> [] \<and> take (length old) (c # cs) = old
      then new @ replace old new (drop (length old - 1) cs)
      else c # replace old new cs)"

section \<open>Regular expressions of the source\<close>

text \<open>
  A pattern is tried at one position of the text: it is given the character before the
  position (for the word boundary \<open>\b\<close>) and the text from the position on, and
  answers the replacement together with the text behind the match. In every pattern of
  the source a greedy repetition is followed by a character outside its class, so the
  first attempt of the engine is the only one that can succeed and the patterns below
  lose no backtracking.
\<close>

type_synonym pattern = "char option \<Rightarrow> string \<Rightarrow> (string \<times> string) option"

text \<open>
  \<open>re.sub\<close>: the text is read from the left; a match is replaced and the scan goes on
  behind it; an empty match is replaced and the next character copied (Python 3.7).
\<close>

function (sequential) re_sub :: "pattern \<Rightarrow> char option \<Rightarrow> string \<Rightarrow> string" where
  "re_sub pat prev [] = (case pat prev [] of None \<Rightarrow> [] | Some (out, rest) \<Rightarrow> out)"
| "re_sub pat prev (c # cs) =
     (case pat prev (c # cs) of
        None \<Rightarrow> c # re_sub pat (Some c) cs
      | Some (out, rest) \<Rightarrow>
          if length rest \<le> length cs
          then out @ re_sub pat (Some ((c # cs) ! (length cs - length rest))) rest
          else out @ c # re_sub pat (Some c) cs)"
  by pat_completeness auto
termination
  by (relation "measure (\<lambda>(pat, prev, s). length s)") auto

text \<open>\<open>re.search\<close>: is there a position where the pattern matches.\<close>

fun re_search :: "pattern \<Rightarrow> char option \<Rightarrow> string \<Rightarrow> bool" where
  "re_search pat prev [] = (case pat prev [] of None \<Rightarrow> False | Some m \<Rightarrow> True)"
| "re_search pat prev (c # cs) =
     (case pat prev (c # cs) of None \<Rightarrow> re_search pat (Some c) cs | Some m \<Rightarrow> True)"

text \<open>
  \<open>re.findall\<close> for a pattern with groups and no empty match: the groups of the
  matches from the left.
\<close>

function (sequential) re_findall :: "(string \<Rightarrow> ('a \<times> string) option) \<Rightarrow> string \<Rightarrow> 'a list" where
  "re_findall pat [] = []"
| "re_findall pat (c # cs) =
     (case pat (c # cs) of
        None \<Rightarrow> re_findall pat cs
      | Some (g, rest) \<Rightarrow>
          if length rest \<le> length cs then g # re_findall pat rest else re_findall pat cs)"
  by pat_completeness auto
termination
  by (relation "measure (\<lambda>(pat, s). length s)") auto

subsection \<open>Pieces of patterns\<close>

text \<open>
  A matcher consumes a prefix of the text or fails. The alternatives of every group of
  the source start with different letters, or are tried with the end of the pattern
  behind them, so the first alternative that fits is the one the engine takes.
\<close>

type_synonym matcher = "string \<Rightarrow> string option"

definition lit :: "string \<Rightarrow> matcher" where
  "lit p s = (if take (length p) s = p then Some (drop (length p) s) else None)"

definition lit_ci :: "string \<Rightarrow> matcher" where
  "lit_ci p s = (if prefix_ci p s then Some (drop (length p) s) else None)"

definition ws0 :: matcher where
  \<comment> \<open>\<open>\s*\<close>\<close>
  "ws0 s = Some (dropWhile is_space s)"

definition ws1 :: matcher where
  \<comment> \<open>\<open>\s+\<close>\<close>
  "ws1 s = (case s of [] \<Rightarrow> None
            | c # cs \<Rightarrow> if is_space c then Some (dropWhile is_space cs) else None)"

fun alt :: "matcher list \<Rightarrow> matcher" where
  "alt [] s = None"
| "alt (m # ms) s = (case m s of Some r \<Rightarrow> Some r | None \<Rightarrow> alt ms s)"

fun seq :: "matcher list \<Rightarrow> matcher" where
  "seq [] s = Some s"
| "seq (m # ms) s = (case m s of None \<Rightarrow> None | Some r \<Rightarrow> seq ms r)"

text \<open>A matcher as a pattern with a fixed replacement.\<close>

definition sub_const :: "matcher \<Rightarrow> string \<Rightarrow> pattern" where
  "sub_const m out prev s = (case m s of None \<Rightarrow> None | Some r \<Rightarrow> Some (out, r))"

text \<open>\<open>pat.sub("", s)\<close> for a pattern anchored with \<open>^\<close>: the match at the start is cut off.\<close>

definition sub_anchored :: "matcher \<Rightarrow> string \<Rightarrow> string" where
  "sub_anchored m s = (case m s of None \<Rightarrow> s | Some r \<Rightarrow> r)"

text \<open>
  The word boundary \<open>\b\<close> between two neighbours; the ends of the text count as
  non-word characters.
\<close>

definition word_opt :: "char option \<Rightarrow> bool" where
  "word_opt a = (case a of None \<Rightarrow> False | Some c \<Rightarrow> is_word c)"

definition boundary :: "char option \<Rightarrow> char option \<Rightarrow> bool" where
  "boundary a b = (word_opt a \<noteq> word_opt b)"

definition head_opt :: "string \<Rightarrow> char option" where
  "head_opt s = (case s of [] \<Rightarrow> None | c # _ \<Rightarrow> Some c)"

subsection \<open>The patterns\<close>

text \<open>\<open>re.escape(p)\<close> under \<open>re.IGNORECASE\<close>, replaced by the empty text.\<close>

definition phrase_pat :: "string \<Rightarrow> pattern" where
  "phrase_pat p prev s = (if p \<noteq> [] \<and> prefix_ci p s then Some ([], drop (length p) s) else None)"

text \<open>\<open>\s+\<close> and \<open>\s{2,}\<close>, replaced by one space.\<close>

definition ws_pat :: pattern where
  "ws_pat prev s = (case ws1 s of None \<Rightarrow> None | Some r \<Rightarrow> Some ('' '', r))"

definition ws2_pat :: pattern where
  "ws2_pat prev s =
     (case s of c # d # cs \<Rightarrow>
        if is_space c \<and> is_space d then Some ('' '', dropWhile is_space cs) else None
      | _ \<Rightarrow> None)"

text \<open>\<open>(\w+)'s\b\<close>, replaced by \<open>\1s\<close>.\<close>

definition possessive_pat :: pattern where
  "possessive_pat prev s =
     (let w = takeWhile is_word s; r = dropWhile is_word s in
      if w \<noteq> [] \<and> take 2 r = [CHR 0x27, CHR ''s''] \<and> \<not> word_opt (head_opt (drop 2 r))
      then Some (w @ ''s'', drop 2 r) else None)"

text \<open>
  \<open>\b + re.escape(w) + \b\<close> under \<open>re.IGNORECASE\<close>, tried at a position. For an
  empty \<open>w\<close> the pattern is \<open>\b\b\<close> and matches the empty text at a boundary.
\<close>

definition word_match_at :: "string \<Rightarrow> char option \<Rightarrow> string \<Rightarrow> bool" where
  "word_match_at w prev s =
     (prefix_ci w s \<and>
      boundary prev (head_opt s) \<and>
      boundary (if w = [] then prev else Some (last (take (length w) s)))
               (head_opt (drop (length w) s)))"

definition word_pat :: "string \<Rightarrow> pattern" where
  "word_pat w prev s = (if word_match_at w prev s then Some ([], drop (length w) s) else None)"

section \<open>Configuration\<close>

text \<open>
  \<open>ScriptConfig\<close>. \<open>BANNED_LITERALS\<close> is a set in the source; the list gives its
  elements in the order in which Python iterates over it. The other fields are never
  changed after construction and are constants here.
\<close>

record ScriptConfig =
  BANNED_LITERALS :: "string list"

definition FORBIDDEN_CHARS :: "char \<Rightarrow> bool" where
  \<comment> \<open>\<open>[>:|"]\<close> and the four curly quotes, which are beyond ASCII\<close>
  "FORBIDDEN_CHARS c = (c \<in> set [CHR ''>'', CHR '':'', CHR ''|'', CHR 0x22])"

definition doc_nouns :: matcher where
  "doc_nouns = alt (map lit_ci [''guide'', ''page'', ''document'', ''section''])"

definition doc_verbs :: matcher where
  "doc_verbs = alt (map lit_ci [''describes'', ''covers'', ''explains'', ''provides''])"

definition DOC_META_PATTERNS :: "matcher list" where
  "DOC_META_PATTERNS =
     [seq [ws0, lit_ci ''This'', ws1, doc_nouns, ws1, doc_verbs, ws1],
      seq [ws0, lit_ci ''In'', ws1, lit_ci ''this'', ws1, doc_nouns, ws1],
      seq [ws0, lit_ci ''The'', ws1, doc_nouns, ws1, doc_verbs, ws1]]"

definition TRAILING_STOPWORDS :: "string list" where
  "TRAILING_STOPWORDS =
     [''and'', ''or'', ''to'', ''for'', ''with'', ''in'', ''of'', ''on'', ''at'', ''by'',
      ''from'', ''into'', ''via'', ''as'', ''that'', ''which'', ''including'', ''such'',
      ''as'', ''than'', ''then'', ''while'', ''when'', ''where'']"

section \<open>The sanitizer\<close>

text \<open>
  \<open>html.unescape\<close> of the standard library returns a text without \<open>&\<close> as it is, and
  otherwise substitutes character references from the HTML5 entity table. That
  substitution is the parameter \<open>charrefs\<close>.
\<close>

definition html_unescape :: "(string \<Rightarrow> string) \<Rightarrow> string \<Rightarrow> string" where
  "html_unescape charrefs s = (if CHR ''&'' \<in> set s then charrefs s else s)"

definition leakage_phrases :: "string list" where
  "leakage_phrases =
     [''Follow these rules strictly'', ''Your task is to'', ''You must now'',
      ''Output only'', ''Critical:'', ''Important:'', ''Note:'', ''Remember:'',
      ''Your response must contain only'']"

text \<open>\<open>sorted(xs, key=lambda x: len(f(x)), reverse=True)\<close>: stable, longest first.\<close>

fun insert_by_len :: "('a \<Rightarrow> string) \<Rightarrow> 'a \<Rightarrow> 'a list \<Rightarrow> 'a list" where
  "insert_by_len f x [] = [x]"
| "insert_by_len f x (y # ys) =
     (if length (f y) \<le> length (f x) then x # y # ys else y # insert_by_len f x ys)"

definition sorted_by_len_desc :: "('a \<Rightarrow> string) \<Rightarrow> 'a list \<Rightarrow> 'a list" where
  "sorted_by_len_desc f xs = foldr (insert_by_len f) xs []"

definition is_stopword :: "string \<Rightarrow> bool" where
  "is_stopword w = (strip_chars '',.;'' (lower w) \<in> set TRAILING_STOPWORDS)"

text \<open>\<open>while words and words[-1].lower().strip(",.;") in TRAILING_STOPWORDS: words.pop()\<close>\<close>

function pop_stopwords :: "string list \<Rightarrow> string list" where
  "pop_stopwords ws =
     (if ws \<noteq> [] \<and> is_stopword (last ws) then pop_stopwords (butlast ws) else ws)"
  by pat_completeness auto
termination
  by (relation "measure length") auto

declare pop_stopwords.simps [simp del]

definition leading_preposition :: matcher where
  "leading_preposition = seq [alt (map lit_ci [''by'', ''with'', ''through'', ''using'']), ws1]"

definition cut_to_limit :: "string \<Rightarrow> string" where
  "cut_to_limit desc =
     (if 160 < length desc then
        (let d = take 161 desc in
         case rfind d CHR '' '' of None \<Rightarrow> d | Some last_space \<Rightarrow> take last_space d)
      else desc)"

definition capitalize_first :: "string \<Rightarrow> string" where
  "capitalize_first desc = (case desc of [] \<Rightarrow> [] | c # cs \<Rightarrow> upper_char c # cs)"

definition clean :: "(string \<Rightarrow> string) \<Rightarrow> ScriptConfig \<Rightarrow> string \<Rightarrow> string" where
  \<comment> \<open>\<open>sanitize_and_finalize\<close> up to the test \<open>if not desc\<close>\<close>
  "clean charrefs config draft =
     (let desc = html_unescape charrefs draft;
          desc = fold (\<lambda>phrase d. re_sub (phrase_pat phrase) None d) leakage_phrases desc;
          desc = strip (re_sub ws_pat None desc);
          desc = re_sub possessive_pat None desc;
          desc = filter (\<lambda>c. c \<noteq> CHR 0x27) desc;
          desc = strip (re_sub ws_pat None desc);
          desc = fold (\<lambda>w d. re_sub (word_pat w) None d)
                   (sorted_by_len_desc (\<lambda>w. w) (BANNED_LITERALS config)) desc;
          desc = map (\<lambda>c. if FORBIDDEN_CHARS c then CHR '' '' else c) desc;
          desc = fold (\<lambda>pat d. strip (sub_anchored pat d)) DOC_META_PATTERNS desc;
          desc = sub_anchored leading_preposition desc
      in strip_chars '' ,;:-'' (re_sub ws2_pat None desc))"

definition finish :: "string \<Rightarrow> string" where
  \<comment> \<open>\<open>sanitize_and_finalize\<close> from the truncation on\<close>
  "finish desc0 =
     (let desc = cut_to_limit desc0;
          words = pop_stopwords (split_ws (rstrip_chars '' ,;:-.'' desc));
          desc = join_sp words;
          desc = (if desc \<noteq> [] \<and> last desc = CHR ''.'' then butlast desc else desc)
      in capitalize_first desc)"

definition sanitize_and_finalize ::
    "(string \<Rightarrow> string) \<Rightarrow> ScriptConfig \<Rightarrow> string \<Rightarrow> string" where
  "sanitize_and_finalize charrefs config draft =
     (let desc = clean charrefs config draft in
      if desc = [] then [] else finish desc)"

text \<open>
  The length gate of \<open>process_adoc_file\<close> and \<open>process_xml_file\<close>: the two drafts are
  what the model and the grammar check returned for the first prompt and for the retry
  prompt; the result is the accepted description, or nothing when the file is skipped.
\<close>

definition too_short :: "string \<Rightarrow> bool" where
  "too_short desc = (desc = [] \<or> length desc < 100)"

definition accepted_description ::
    "(string \<Rightarrow> string) \<Rightarrow> ScriptConfig \<Rightarrow> string \<Rightarrow> string \<Rightarrow> string option" where
  "accepted_description charrefs config corrected_draft corrected_draft_retry =
     (let desc = sanitize_and_finalize charrefs config corrected_draft in
      if too_short desc then
        (let desc = sanitize_and_finalize charrefs config corrected_draft_retry in
         if too_short desc then None else Some desc)
      else Some desc)"

section \<open>Attribute resolution\<close>

text \<open>
  An attribute table is a Python \<open>dict\<close> from names to values: an association list in
  insertion order. Assigning to a key that is present keeps its place; a new key goes to
  the end.
\<close>

type_synonym attrs = "(string \<times> string) list"

fun dict_set :: "string \<Rightarrow> string \<Rightarrow> attrs \<Rightarrow> attrs" where
  "dict_set k v [] = [(k, v)]"
| "dict_set k v ((k', v') # kvs) =
     (if k' = k then (k, v) # kvs else (k', v') # dict_set k v kvs)"

text \<open>The text \<open>{key}\<close>.\<close>

definition braces :: "string \<Rightarrow> string" where
  "braces k = CHR ''{'' # k @ ''}''"

text \<open>
  \<open>\{([\w-]+)\}\<close>, which on ASCII is \<open>\{([A-Za-z0-9_-]+)\}\<close>: the name and the text
  behind the closing brace.
\<close>

definition placeholder_at :: "string \<Rightarrow> (string \<times> string) option" where
  "placeholder_at s =
     (case s of [] \<Rightarrow> None
      | c # cs \<Rightarrow>
          (let n = takeWhile is_name_char cs; r = dropWhile is_name_char cs in
           if c = CHR ''{'' \<and> n \<noteq> [] \<and> head_opt r = Some CHR ''}'' then Some (n, tl r)
           else None))"

definition placeholder_pat :: pattern where
  "placeholder_pat prev s =
     (case placeholder_at s of None \<Rightarrow> None | Some (n, r) \<Rightarrow> Some ([], r))"

text \<open>The loop \<open>for _ in range(10)\<close> of \<open>resolve_attributes\<close>, with the passes left.\<close>

fun resolve_loop :: "nat \<Rightarrow> attrs \<Rightarrow> string \<Rightarrow> string" where
  "resolve_loop 0 attributes text = text"
| "resolve_loop (Suc n) attributes text =
     (if CHR ''{'' \<notin> set text then text
      else
        (let temp_text = fold (\<lambda>(k, v) t. replace (braces k) v t) attributes text in
         if temp_text = text then text else resolve_loop n attributes temp_text))"

definition resolve_attributes :: "string \<Rightarrow> attrs \<Rightarrow> string" where
  "resolve_attributes text attributes =
     (if attributes = [] then re_sub placeholder_pat None text
      else re_sub placeholder_pat None (resolve_loop 10 attributes text))"

subsection \<open>Parsing the attributes file\<close>

text \<open>
  \<open>str.splitlines\<close>: on ASCII a line ends at \<open>\n\<close>, \<open>\r\<close>, \<open>\r\n\<close>, \<open>\v\<close>, \<open>\f\<close> and
  the codes 28 to 30.
\<close>

definition is_linebreak :: "char \<Rightarrow> bool" where
  "is_linebreak c =
     (c \<in> set [CHR 0x0A, CHR 0x0D, CHR 0x0B, CHR 0x0C, CHR 0x1C, CHR 0x1D, CHR 0x1E])"

function splitlines :: "string \<Rightarrow> string list" where
  "splitlines s =
     (if s = [] then []
      else
        takeWhile (\<lambda>c. \<not> is_linebreak c) s #
        (case dropWhile (\<lambda>c. \<not> is_linebreak c) s of
           [] \<Rightarrow> []
         | c # r \<Rightarrow>
             splitlines (if c = CHR 0x0D \<and> head_opt r = Some CHR 0x0A then tl r else r)))"
  by pat_completeness auto
termination
proof (relation "measure length")
  fix s r :: string and c :: char
  assume "dropWhile (\<lambda>c. \<not> is_linebreak c) s = c # r"
  then have "Suc (length r) \<le> length s"
    using length_dropWhile_le [of "\<lambda>c. \<not> is_linebreak c" s] by simp
  then show "((if c = CHR 0x0D \<and> head_opt r = Some CHR 0x0A then tl r else r), s)
      \<in> measure length"
    by auto
qed simp

declare splitlines.simps [simp del]

text \<open>
  The four line patterns. They are applied to stripped lines of \<open>splitlines\<close>, which
  hold no line break, so \<open>.\<close> matches every character and \<open>$\<close> is the end of the line.
\<close>

definition endif_re :: "string \<Rightarrow> bool" where
  \<comment> \<open>\<open>^endif::\[\]$\<close>\<close>
  "endif_re line = (line = ''endif::[]'')"

definition ifndef_re :: "string \<Rightarrow> string option" where
  \<comment> \<open>\<open>^ifndef::([\w-]+)\[\]$\<close>\<close>
  "ifndef_re line =
     (case lit ''ifndef::'' line of None \<Rightarrow> None
      | Some r \<Rightarrow>
          (let k = takeWhile is_name_char r in
           if k \<noteq> [] \<and> dropWhile is_name_char r = ''[]'' then Some k else None))"

definition ifeval_re :: "string \<Rightarrow> (string \<times> string) option" where
  \<comment> \<open>\<open>^ifeval::\["\{([\w-]+)\}" == "([^"]+)"\]$\<close>\<close>
  "ifeval_re line =
     (case lit (''ifeval::['' @ [CHR 0x22] @ ''{'') line of None \<Rightarrow> None
      | Some r \<Rightarrow>
          (let k = takeWhile is_name_char r in
           case lit (''}'' @ [CHR 0x22] @ '' == '' @ [CHR 0x22]) (dropWhile is_name_char r) of
             None \<Rightarrow> None
           | Some r' \<Rightarrow>
               (let v = takeWhile (\<lambda>c. c \<noteq> CHR 0x22) r' in
                if k \<noteq> [] \<and> v \<noteq> [] \<and> dropWhile (\<lambda>c. c \<noteq> CHR 0x22) r' = [CHR 0x22] @ '']''
                then Some (k, v) else None)))"

definition attr_re :: "string \<Rightarrow> (string \<times> string option) option" where
  \<comment> \<open>\<open>^:([\w-]+):(?:\s+(.*))?$\<close>: the second group is missing when the line ends at the colon\<close>
  "attr_re line =
     (case lit '':'' line of None \<Rightarrow> None
      | Some r \<Rightarrow>
          (let k = takeWhile is_name_char r in
           case lit '':'' (dropWhile is_name_char r) of None \<Rightarrow> None
           | Some r' \<Rightarrow>
               if k = [] then None
               else if r' = [] then Some (k, None)
               else (case ws1 r' of None \<Rightarrow> None | Some v \<Rightarrow> Some (k, Some v))))"

text \<open>
  The state of the first pass. The head of \<open>active_block_stack\<close> is the end of the
  Python list, where \<open>append\<close> and \<open>pop\<close> work.
\<close>

record parse_state =
  attributes :: attrs
  in_active_block :: bool
  active_block_stack :: "bool list"

definition process_line :: "parse_state \<Rightarrow> string \<Rightarrow> parse_state" where
  "process_line st raw =
     (let line = strip raw in
      if line = [] \<or> take 2 line = ''//'' then st
      else if endif_re line then
        (case active_block_stack st of [] \<Rightarrow> st
         | b # bs \<Rightarrow> st\<lparr>in_active_block := b, active_block_stack := bs\<rparr>)
      else
        (case ifndef_re line of
           Some k \<Rightarrow>
             st\<lparr>active_block_stack := in_active_block st # active_block_stack st,
                in_active_block := in_active_block st \<and> map_of (attributes st) k = None\<rparr>
         | None \<Rightarrow>
        (case ifeval_re line of
           Some (k, v) \<Rightarrow>
             st\<lparr>active_block_stack := in_active_block st # active_block_stack st,
                in_active_block := in_active_block st \<and> map_of (attributes st) k = Some v\<rparr>
         | None \<Rightarrow>
        if \<not> in_active_block st then st
        else
          (case attr_re line of
             Some (k, value) \<Rightarrow>
               st\<lparr>attributes :=
                    dict_set k (case value of None \<Rightarrow> [] | Some v \<Rightarrow> strip v) (attributes st)\<rparr>
           | None \<Rightarrow> st))))"

definition first_pass :: "attrs \<Rightarrow> string list \<Rightarrow> parse_state" where
  "first_pass initial_context lines =
     fold (\<lambda>line st. process_line st line) lines
       \<lparr>attributes = initial_context, in_active_block = True, active_block_stack = []\<rparr>"

subsection \<open>Expanding the values of the table\<close>

text \<open>\<open>re.findall(r'\{([\w-]+)\}', value)\<close>\<close>

definition find_placeholders :: "string \<Rightarrow> string list" where
  "find_placeholders value = re_findall placeholder_at value"

text \<open>
  The inner loop over the placeholders of one value: a placeholder that is a key is
  replaced by the current value of that key, any other is left.
\<close>

definition expand_value :: "attrs \<Rightarrow> string \<Rightarrow> string" where
  "expand_value table value =
     fold (\<lambda>p new_value.
            case map_of table p of None \<Rightarrow> new_value
            | Some v \<Rightarrow> replace (braces p) v new_value)
       (find_placeholders value) value"

text \<open>
  One pass \<open>for key, value in attributes.items()\<close>; the state is the table and the flag
  \<open>unresolved\<close>. The keys do not change during the pass, the values do.
\<close>

fun expand_keys :: "string list \<Rightarrow> attrs \<times> bool \<Rightarrow> attrs \<times> bool" where
  "expand_keys [] st = st"
| "expand_keys (k # ks) (table, unresolved) =
     (case map_of table k of
        None \<Rightarrow> expand_keys ks (table, unresolved)
      | Some value \<Rightarrow>
          if CHR ''{'' \<in> set value \<and> find_placeholders value \<noteq> []
          then expand_keys ks (dict_set k (expand_value table value) table, True)
          else expand_keys ks (table, unresolved))"

text \<open>The loop \<open>for _ in range(10)\<close> of the second pass, with the passes left.\<close>

fun expand_passes :: "nat \<Rightarrow> attrs \<times> bool \<Rightarrow> attrs" where
  "expand_passes 0 (table, unresolved) = table"
| "expand_passes (Suc n) (table, unresolved) =
     (if \<not> unresolved then table
      else expand_passes n (expand_keys (map fst table) (table, False)))"

definition expand_attributes :: "attrs \<Rightarrow> attrs" where
  "expand_attributes table = expand_passes 10 (table, True)"

text \<open>
  \<open>load_and_process_adoc_attributes\<close>: the file is its text, or nothing when no path
  is given or the file does not exist.
\<close>

definition load_and_process_adoc_attributes :: "string option \<Rightarrow> attrs \<Rightarrow> attrs" where
  "load_and_process_adoc_attributes file initial_context =
     (case file of None \<Rightarrow> []
      | Some content \<Rightarrow>
          expand_attributes (attributes (first_pass initial_context (splitlines content))))"

section \<open>Brands\<close>

datatype family = opensuse | suse

record brand =
  key :: string
  name :: string
  family :: family

text \<open>\<open>sub in s\<close> for texts.\<close>

fun contains :: "string \<Rightarrow> string \<Rightarrow> bool" where
  "contains sub [] = (sub = [])"
| "contains sub (c # cs) = (take (length sub) (c # cs) = sub \<or> contains sub cs)"

text \<open>\<open><!ENTITY\s+([\w-]+)\s+"([^"]+)">\<close>: the two groups and the text behind the match.\<close>

definition entity_at :: "string \<Rightarrow> ((string \<times> string) \<times> string) option" where
  "entity_at s =
     (case seq [lit ''<!ENTITY'', ws1] s of None \<Rightarrow> None
      | Some r \<Rightarrow>
          (let k = takeWhile is_name_char r in
           case seq [ws1, lit [CHR 0x22]] (dropWhile is_name_char r) of None \<Rightarrow> None
           | Some r' \<Rightarrow>
               (let n = takeWhile (\<lambda>c. c \<noteq> CHR 0x22) r' in
                case lit ([CHR 0x22] @ ''>'') (dropWhile (\<lambda>c. c \<noteq> CHR 0x22) r') of
                  None \<Rightarrow> None
                | Some r'' \<Rightarrow> if k \<noteq> [] \<and> n \<noteq> [] then Some ((k, n), r'') else None)))"

definition brand_of_entity :: "string \<times> string \<Rightarrow> brand" where
  "brand_of_entity kn =
     (case kn of (k, n) \<Rightarrow>
        \<lparr>key = k, name = strip n,
         family = (if contains ''opensuse'' (lower n) \<or> contains ''leap'' (lower n)
                   then opensuse else suse)\<rparr>)"

text \<open>
  \<open>load_brand_config_from_entities\<close>: \<open>filepath\<close> is nothing for Python's \<open>None\<close>.
  \<open>read_file\<close> stands for the file system: nothing for a path that does not exist,
  otherwise the text of the file or the exception that \<open>Path.read_text\<close> raises.
\<close>

datatype io_error = ReadError

definition load_brand_config_from_entities ::
    "(string \<Rightarrow> (io_error + string) option) \<Rightarrow> string option \<Rightarrow> io_error + brand list" where
  "load_brand_config_from_entities read_file filepath =
     (case filepath of None \<Rightarrow> Inr []
      | Some path \<Rightarrow>
          if path = [] then Inr []
          else (case read_file path of None \<Rightarrow> Inr []
                | Some (Inl e) \<Rightarrow> Inl e
                | Some (Inr content) \<Rightarrow>
                    Inr (map brand_of_entity (re_findall entity_at content))))"

datatype status = UPDATED

text \<open>A Python set built by \<open>add\<close>, as the list of its elements.\<close>

definition set_add :: "string \<Rightarrow> string list \<Rightarrow> string list" where
  "set_add x xs = (if x \<in> set xs then xs else xs @ [x])"

definition banned_keywords_of :: "brand \<Rightarrow> brand list \<Rightarrow> string list" where
  "banned_keywords_of file_context brands =
     fold (\<lambda>b banned_keywords.
            if family b \<noteq> family file_context
            then fold (\<lambda>word ks. if 3 < length word then set_add word ks else ks)
                   (split_ws (name b)) (set_add (name b) banned_keywords)
            else banned_keywords)
       brands []"

subsection \<open>The repairs after a removal\<close>

definition space_comma_pat :: pattern where
  \<comment> \<open>\<open>(\w+)\s+,\<close> replaced by \<open>\1,\<close>\<close>
  "space_comma_pat prev s =
     (let w = takeWhile is_word s in
      case seq [ws1, lit '',''] (dropWhile is_word s) of None \<Rightarrow> None
      | Some r \<Rightarrow> if w \<noteq> [] then Some (w @ '','', r) else None)"

definition comma_or_space :: "char \<Rightarrow> bool" where
  "comma_or_space c = (c = CHR '','' \<or> is_space c)"

definition commas_pat :: pattern where
  \<comment> \<open>\<open>(,\s*){2,}\<close> replaced by a comma: a run of commas and whitespace that starts with a
      comma and holds another one\<close>
  "commas_pat prev s =
     (case s of [] \<Rightarrow> None
      | c # cs \<Rightarrow>
          if c = CHR '','' \<and> CHR '','' \<in> set (takeWhile comma_or_space cs)
          then Some ('','', dropWhile comma_or_space cs) else None)"

definition comma_conj_pat :: pattern where
  \<comment> \<open>\<open>,\s*(and|or)\s*,\<close> replaced by a comma\<close>
  "comma_conj_pat =
     sub_const (seq [lit '','', ws0, alt [lit ''and'', lit ''or''], ws0, lit '','']) '',''"

definition only_space :: matcher where
  \<comment> \<open>\<open>\s*$\<close>\<close>
  "only_space s = (if list_all is_space s then Some [] else None)"

definition dangling_end_pat :: pattern where
  \<comment> \<open>\<open>\b(and|or|a|the|on|of)\s*$\<close> under \<open>re.IGNORECASE\<close>, replaced by the empty text\<close>
  "dangling_end_pat prev s =
     (if boundary prev (head_opt s) then
        sub_const
          (alt (map (\<lambda>w. seq [lit_ci w, only_space])
                  [''and'', ''or'', ''a'', ''the'', ''on'', ''of''])) [] prev s
      else None)"

definition prep_conj_pat :: pattern where
  \<comment> \<open>\<open>\b(on|of)\s+(and|or)\b\<close> under \<open>re.IGNORECASE\<close>, replaced by the empty text\<close>
  "prep_conj_pat prev s =
     (case seq [alt [lit_ci ''on'', lit_ci ''of''], ws1, alt [lit_ci ''and'', lit_ci ''or'']] s of
        None \<Rightarrow> None
      | Some r \<Rightarrow>
          if boundary prev (head_opt s) \<and> \<not> word_opt (head_opt r) then Some ([], r) else None)"

definition comma_period_pat :: pattern where
  \<comment> \<open>\<open>,\s*\.\<close> replaced by a period\<close>
  "comma_period_pat = sub_const (seq [lit '','', ws0, lit ''.'']) ''.''"

definition repair :: "string \<Rightarrow> string" where
  "repair description =
     (let description = strip (re_sub ws2_pat None description);
          description = re_sub space_comma_pat None description;
          description = re_sub commas_pat None description;
          description = re_sub comma_conj_pat None description;
          description = re_sub dangling_end_pat None description;
          description = re_sub prep_conj_pat None description;
          description = re_sub comma_period_pat None description;
          description = replace '' .'' ''.'' (replace '' ,'' '','' description);
          description = strip (re_sub ws2_pat None description)
      in strip description)"

text \<open>
  The loop that looks for the brand of the file: the first brand, longest key first,
  whose key is a whole word of the path.
\<close>

definition file_context_of :: "string \<Rightarrow> brand list \<Rightarrow> brand option" where
  "file_context_of file_path brands =
     find (\<lambda>b. re_search (word_pat (key b)) None file_path) (sorted_by_len_desc key brands)"

text \<open>The loop that removes the banned keywords, longest first.\<close>

definition remove_keywords :: "string list \<Rightarrow> string \<Rightarrow> string" where
  "remove_keywords banned_keywords description =
     fold (\<lambda>keyword d.
            if re_search (word_pat keyword) None d then re_sub (word_pat keyword) None d else d)
       (sorted_by_len_desc (\<lambda>w. w) banned_keywords) description"

definition post_process_description ::
    "string \<Rightarrow> string \<Rightarrow> brand list \<Rightarrow> string \<times> status option" where
  "post_process_description description file_path brands =
     (if brands = [] then (description, None)
      else
        (case file_context_of file_path brands of
           None \<Rightarrow> (description, None)
         | Some file_context \<Rightarrow>
             (let banned_keywords = banned_keywords_of file_context brands in
              if banned_keywords = [] then (description, None)
              else
                (let removed = remove_keywords banned_keywords description
                 in if removed \<noteq> description then (repair removed, Some UPDATED)
                    else (removed, None)))))"

section \<open>Notions used in the statements\<close>

text \<open>A name that the placeholder pattern accepts between the braces.\<close>

definition valid_name :: "string \<Rightarrow> bool" where
  "valid_name n = (n \<noteq> [] \<and> list_all is_name_char n)"

text \<open>The value of key \<open>k\<close> in the table holds the text \<open>s\<close>.\<close>

definition value_contains :: "attrs \<Rightarrow> string \<Rightarrow> string \<Rightarrow> bool" where
  "value_contains table k s = (case map_of table k of None \<Rightarrow> False | Some v \<Rightarrow> contains s v)"

text \<open>
  A description in final form for a configuration: it holds no \<open>&\<close>, no apostrophe, no
  leaked phrase, no banned literal and no forbidden character; it does not start with a
  preposition or a phrase about the document; it is a non-empty sequence of words with
  one space between them, of at most 160 characters; it neither starts nor ends with
  stray punctuation, and its last word is no stop-word.
\<close>

definition compliant :: "ScriptConfig \<Rightarrow> string \<Rightarrow> bool" where
  "compliant config x =
     (CHR ''&'' \<notin> set x \<and> CHR 0x27 \<notin> set x \<and>
      list_all (\<lambda>p. \<not> re_search (phrase_pat p) None x) leakage_phrases \<and>
      list_all (\<lambda>w. \<not> re_search (word_pat w) None x) (BANNED_LITERALS config) \<and>
      list_all (\<lambda>c. \<not> FORBIDDEN_CHARS c) x \<and>
      list_all (\<lambda>m. m x = None) (leading_preposition # DOC_META_PATTERNS) \<and>
      join_sp (split_ws x) = x \<and>
      x \<noteq> [] \<and> length x \<le> 160 \<and>
      hd x \<notin> set '',;:-'' \<and> last x \<notin> set '',;:-.'' \<and>
      \<not> is_stopword (last (split_ws x)))"

text \<open>
  The four conditions that the specification lists for a compliant description: no
  banned literal, no forbidden punctuation character, at most 160 characters, and neither
  a stop-word nor a period at the end.
\<close>

definition listed_conditions :: "ScriptConfig \<Rightarrow> string \<Rightarrow> bool" where
  "listed_conditions config x =
     (list_all (\<lambda>w. \<not> re_search (word_pat w) None x) (BANNED_LITERALS config) \<and>
      list_all (\<lambda>c. \<not> FORBIDDEN_CHARS c) x \<and>
      length x \<le> 160 \<and>
      (case rev (split_ws x) of [] \<Rightarrow> True | w # ws \<Rightarrow> \<not> is_stopword w) \<and>
      (case rev x of [] \<Rightarrow> True | c # cs \<Rightarrow> c \<noteq> CHR ''.''))"

text \<open>Words as \<open>str.split()\<close> returns them: not empty and without whitespace.\<close>

definition good_words :: "string list \<Rightarrow> bool" where
  "good_words ws = (\<forall>w \<in> set ws. w \<noteq> [] \<and> (\<forall>c \<in> set w. \<not> is_space c))"

text \<open>
  The conditional stack read from the innermost block outwards: a block that is active
  lies in active blocks only.
\<close>

fun and_chain :: "bool \<Rightarrow> bool list \<Rightarrow> bool" where
  "and_chain b [] = True"
| "and_chain b (b' # bs) = ((if b then b' else True) \<and> and_chain b' bs)"

section \<open>Concrete inputs\<close>

text \<open>
  An entity table without entries, for drafts that hold no \<open>&\<close>; and the configuration
  that \<open>ScriptConfig()\<close> builds when no banned terms are given.
\<close>

definition no_charrefs :: "string \<Rightarrow> string" where
  "no_charrefs s = s"

definition default_config :: ScriptConfig where
  "default_config = \<lparr>BANNED_LITERALS = []\<rparr>"

text \<open>\<open>str.startswith\<close>\<close>

definition starts_with :: "string \<Rightarrow> string \<Rightarrow> bool" where
  "starts_with s p = (take (length p) s = p)"

definition round_trip_draft :: string where
  "round_trip_draft =
     ''This guide describes how to configure the Foo network stack for your infrastructure and for''"

text \<open>A draft of 161 characters without whitespace.\<close>

definition unbroken_draft :: string where
  "unbroken_draft = concat (replicate 80 ''a/'') @ ''a''"

text \<open>The draft \<open>Run "zypper up". Then\<close>.\<close>

definition quoted_draft :: string where
  "quoted_draft = ''Run '' @ [CHR 0x22] @ ''zypper up'' @ [CHR 0x22] @ ''. Then''"

text \<open>A draft that starts with two prepositions, and a draft in final form but for its first letter.\<close>

definition by_using_draft :: string where
  "by_using_draft = ''By using the installer you set up the server''"

definition lowercase_draft :: string where
  "lowercase_draft = ''configure the network stack''"

definition chain_table :: attrs where
  "chain_table = [(''a'', ''{b}''), (''b'', ''X'')]"

definition circular_table :: attrs where
  "circular_table = [(''a'', ''{b}''), (''b'', ''{a}'')]"

text \<open>The three lines \<open>ifndef::x[]\<close>, \<open>:y: 1\<close>, \<open>endif::[]\<close>.\<close>

definition gating_file :: string where
  "gating_file = ''ifndef::x[]'' @ [CHR 0x0A] @ '':y: 1'' @ [CHR 0x0A] @ ''endif::[]'' @ [CHR 0x0A]"

text \<open>The state at the start of the file, and a state inside an inactive block.\<close>

definition start_state :: parse_state where
  "start_state = \<lparr>attributes = [], in_active_block = True, active_block_stack = []\<rparr>"

definition inactive_state :: parse_state where
  "inactive_state =
     \<lparr>attributes = [(''x'', ''1'')], in_active_block = False, active_block_stack = [True]\<rparr>"

text \<open>A file system without files.\<close>

definition empty_disk :: "string \<Rightarrow> (io_error + string) option" where
  "empty_disk path = None"

definition leap_brand :: brand where
  "leap_brand = \<lparr>key = ''leap'', name = ''openSUSE Leap'', family = opensuse\<rparr>"

definition sleha_brand :: brand where
  "sleha_brand = \<lparr>key = ''sleha'', name = ''SLE HA'', family = suse\<rparr>"

section \<open>Character classes by bits\<close>

text \<open>
  The classes above are stated on character codes. For evaluation they are restated on
  the eight bits of a character (least significant first), which avoids arithmetic.
\<close>

lemma is_space_code [code]:
  "is_space (Char b0 b1 b2 b3 b4 b5 b6 b7) =
     (\<not> b7 \<and> \<not> b6 \<and>
      (if b5 then \<not> b4 \<and> \<not> b3 \<and> \<not> b2 \<and> \<not> b1 \<and> \<not> b0
       else if b4 then b3 \<and> b2
       else b3 \<and> (if b2 then \<not> b1 else b1 \<or> b0)))"
  by (cases b0; cases b1; cases b2; cases b3; cases b4; cases b5; cases b6; cases b7;
      simp add: is_space_def)

lemma is_upper_code [code]:
  "is_upper (Char b0 b1 b2 b3 b4 b5 b6 b7) =
     (\<not> b7 \<and> b6 \<and> \<not> b5 \<and> (b4 \<or> b3 \<or> b2 \<or> b1 \<or> b0) \<and>
      \<not> (b4 \<and> b3 \<and> (b2 \<or> (b1 \<and> b0))))"
  by (cases b0; cases b1; cases b2; cases b3; cases b4; cases b5; cases b6; cases b7;
      simp add: is_upper_def)

lemma is_lower_code [code]:
  "is_lower (Char b0 b1 b2 b3 b4 b5 b6 b7) =
     (\<not> b7 \<and> b6 \<and> b5 \<and> (b4 \<or> b3 \<or> b2 \<or> b1 \<or> b0) \<and>
      \<not> (b4 \<and> b3 \<and> (b2 \<or> (b1 \<and> b0))))"
  by (cases b0; cases b1; cases b2; cases b3; cases b4; cases b5; cases b6; cases b7;
      simp add: is_lower_def)

lemma is_digit_code [code]:
  "is_digit (Char b0 b1 b2 b3 b4 b5 b6 b7) =
     (\<not> b7 \<and> \<not> b6 \<and> b5 \<and> b4 \<and> \<not> (b3 \<and> (b2 \<or> b1)))"
  by (cases b0; cases b1; cases b2; cases b3; cases b4; cases b5; cases b6; cases b7;
      simp add: is_digit_def)

lemma lower_char_code [code]:
  "lower_char (Char b0 b1 b2 b3 b4 b5 b6 b7) =
     (if is_upper (Char b0 b1 b2 b3 b4 b5 b6 b7) then Char b0 b1 b2 b3 b4 True b6 b7
      else Char b0 b1 b2 b3 b4 b5 b6 b7)"
  by (cases b0; cases b1; cases b2; cases b3; cases b4; cases b5; cases b6; cases b7;
      simp add: lower_char_def is_upper_def char_of_eq_iff)

lemma upper_char_code [code]:
  "upper_char (Char b0 b1 b2 b3 b4 b5 b6 b7) =
     (if is_lower (Char b0 b1 b2 b3 b4 b5 b6 b7) then Char b0 b1 b2 b3 b4 False b6 b7
      else Char b0 b1 b2 b3 b4 b5 b6 b7)"
  by (cases b0; cases b1; cases b2; cases b3; cases b4; cases b5; cases b6; cases b7;
      simp add: upper_char_def is_lower_def char_of_eq_iff)

section \<open>Lemmas on lists and substitution\<close>

lemma re_sub_no_match: "\<not> re_search pat prev s \<Longrightarrow> re_sub pat prev s = s"
  by (induction s arbitrary: prev) (auto split: option.splits)

lemma re_sub_never:
  "(\<And>p t. set t \<subseteq> set s \<Longrightarrow> pat p t = None) \<Longrightarrow> re_sub pat prev s = s"
proof (induction s arbitrary: prev)
  case Nil
  then show ?case by simp
next
  case (Cons c cs)
  have "pat prev (c # cs) = None"
    by (rule Cons.prems) simp
  moreover have "re_sub pat (Some c) cs = cs"
    by (rule Cons.IH, rule Cons.prems) auto
  ultimately show ?case by simp
qed

lemma dropWhile_rev_id:
  assumes "s \<noteq> []" and "\<not> P (last s)"
  shows "dropWhile P (rev s) = rev s"
proof -
  from assms have "\<not> P (hd (rev s))" by (simp add: hd_rev)
  then show ?thesis by (cases "rev s") auto
qed

lemma rstrip_with_id:
  assumes "s \<noteq> []" and "\<not> P (last s)"
  shows "rstrip_with P s = s"
  using assms by (simp add: rstrip_with_def dropWhile_rev_id)

lemma strip_with_id:
  assumes "s \<noteq> []" and "\<not> P (hd s)" and "\<not> P (last s)"
  shows "strip_with P s = s"
proof -
  from assms have "dropWhile P s = s"
    by (cases s) auto
  with assms show ?thesis
    by (simp add: strip_with_def rstrip_with_id)
qed

lemma set_insert_by_len: "set (insert_by_len f x ys) = insert x (set ys)"
  by (induction ys) auto

lemma set_sorted_by_len_desc: "set (sorted_by_len_desc f xs) = set xs"
  unfolding sorted_by_len_desc_def by (induction xs) (auto simp: set_insert_by_len)

section \<open>Lemmas on placeholders\<close>

lemma not_name_braces: "\<not> is_name_char CHR ''{''" "\<not> is_name_char CHR ''}''"
  by code_simp+

lemma name_char_not_brace: "is_name_char c \<Longrightarrow> c \<noteq> CHR ''{'' \<and> c \<noteq> CHR ''}''"
  using not_name_braces by auto

lemma valid_name_brace_free:
  "valid_name n \<Longrightarrow> CHR ''{'' \<notin> set n \<and> CHR ''}'' \<notin> set n"
  using name_char_not_brace by (auto simp: valid_name_def list_all_iff)

lemma head_opt_Some: "head_opt s = Some c \<longleftrightarrow> (\<exists>t. s = c # t)"
  by (cases s) (auto simp: head_opt_def)

lemma placeholder_at_SomeD:
  assumes "placeholder_at s = Some (n, r)"
  shows "s = CHR ''{'' # n @ CHR ''}'' # r \<and> valid_name n"
proof -
  from assms obtain cs where s: "s = CHR ''{'' # cs"
    and n: "n = takeWhile is_name_char cs" "n \<noteq> []"
    and h: "head_opt (dropWhile is_name_char cs) = Some CHR ''}''"
    and r: "r = tl (dropWhile is_name_char cs)"
    by (cases s) (auto simp: placeholder_at_def Let_def split: if_splits)
  from h r have "dropWhile is_name_char cs = CHR ''}'' # r"
    by (auto simp: head_opt_Some)
  with n have "cs = n @ CHR ''}'' # r"
    using takeWhile_dropWhile_id [of is_name_char cs] by simp
  moreover have "list_all is_name_char n"
    unfolding n list_all_iff by (auto dest: set_takeWhileD)
  ultimately show ?thesis using s n by (simp add: valid_name_def)
qed

lemma placeholder_at_token:
  assumes "valid_name n"
  shows "placeholder_at (braces n @ post) = Some (n, post)"
proof -
  from assms have a: "\<forall>c \<in> set n. is_name_char c" and ne: "n \<noteq> []"
    by (auto simp: valid_name_def list_all_iff)
  have "takeWhile is_name_char (n @ CHR ''}'' # post) = n"
    using a not_name_braces by (simp add: takeWhile_append2)
  moreover have "dropWhile is_name_char (n @ CHR ''}'' # post) = CHR ''}'' # post"
    using a not_name_braces by (simp add: dropWhile_append2)
  ultimately show ?thesis
    using ne by (simp add: placeholder_at_def braces_def head_opt_def)
qed

lemma placeholder_at_before_brace:
  assumes "pre \<noteq> []"
  shows "placeholder_at (pre @ CHR ''{'' # rest) =
    (case placeholder_at pre of None \<Rightarrow> None | Some (n, r) \<Rightarrow> Some (n, r @ CHR ''{'' # rest))"
proof -
  from assms obtain c cs where pre: "pre = c # cs" by (cases pre) auto
  show ?thesis
  proof (cases "\<forall>x \<in> set cs. is_name_char x")
    case True
    have d: "dropWhile is_name_char cs = []"
      using True by simp
    have d2: "dropWhile is_name_char (cs @ CHR ''{'' # rest) = CHR ''{'' # rest"
      using True not_name_braces by (simp add: dropWhile_append2)
    show ?thesis
      by (simp add: pre placeholder_at_def head_opt_def Let_def d d2)
  next
    case False
    then have "takeWhile is_name_char (cs @ CHR ''{'' # rest) = takeWhile is_name_char cs"
      "dropWhile is_name_char (cs @ CHR ''{'' # rest) = dropWhile is_name_char cs @ CHR ''{'' # rest"
      "dropWhile is_name_char cs \<noteq> []"
      by (auto simp: takeWhile_append1 dropWhile_append1 dropWhile_eq_Nil_conv)
    then show ?thesis
      by (cases "dropWhile is_name_char cs") (auto simp: pre placeholder_at_def head_opt_def Let_def)
  qed
qed

lemma re_sub_placeholder_Cons:
  "re_sub placeholder_pat prev (c # cs) =
     (case placeholder_at (c # cs) of
        None \<Rightarrow> c # re_sub placeholder_pat (Some c) cs
      | Some (n, r) \<Rightarrow> re_sub placeholder_pat (Some CHR ''}'') r)"
proof (cases "placeholder_at (c # cs)")
  case None
  then show ?thesis by (simp add: placeholder_pat_def)
next
  case (Some a)
  obtain n r where a: "a = (n, r)" by (cases a)
  from placeholder_at_SomeD [OF Some [unfolded a]]
  have cs: "cs = n @ CHR ''}'' # r" and c: "c = CHR ''{''" by simp_all
  have "(c # cs) ! (length cs - length r) = CHR ''}''"
    by (simp add: cs nth_append)
  then show ?thesis
    using Some a cs by (simp add: placeholder_pat_def)
qed

lemma re_sub_placeholder_prev:
  "re_sub placeholder_pat p s = re_sub placeholder_pat None s"
proof (induction s arbitrary: p rule: length_induct)
  case (1 s)
  show ?case
  proof (cases s)
    case Nil
    then show ?thesis by (simp add: placeholder_pat_def placeholder_at_def)
  next
    case (Cons c cs)
    show ?thesis
    proof (cases "placeholder_at (c # cs)")
      case None
      with 1 [rule_format, of cs "Some c"] show ?thesis
        unfolding Cons re_sub_placeholder_Cons by simp
    next
      case (Some a)
      then show ?thesis
        unfolding Cons re_sub_placeholder_Cons by (simp split: prod.splits)
    qed
  qed
qed

lemma re_sub_placeholder_token:
  assumes "valid_name n"
  shows "re_sub placeholder_pat None (pre @ braces n @ post) =
         re_sub placeholder_pat None pre @ re_sub placeholder_pat None post"
proof (induction pre rule: length_induct)
  case (1 pre)
  show ?case
  proof (cases pre)
    case Nil
    have "braces n @ post = CHR ''{'' # n @ CHR ''}'' # post" by (simp add: braces_def)
    then have "re_sub placeholder_pat None (braces n @ post) = re_sub placeholder_pat (Some CHR ''}'') post"
      using placeholder_at_token [OF assms, of post] re_sub_placeholder_Cons [of None "CHR ''{''" "n @ CHR ''}'' # post"]
      by simp
    moreover have "re_sub placeholder_pat None [] = []"
      by (simp add: placeholder_pat_def placeholder_at_def)
    ultimately show ?thesis
      using re_sub_placeholder_prev [of "Some CHR ''}''" post]
      by (simp add: Nil)
  next
    case (Cons c cs)
    have tok: "braces n @ post = CHR ''{'' # (n @ CHR ''}'' # post)" by (simp add: braces_def)
    have at: "placeholder_at ((c # cs) @ braces n @ post) =
      (case placeholder_at (c # cs) of None \<Rightarrow> None
       | Some (m, r) \<Rightarrow> Some (m, r @ braces n @ post))"
      unfolding tok by (rule placeholder_at_before_brace) simp
    show ?thesis
    proof (cases "placeholder_at (c # cs)")
      case None
      have l: "re_sub placeholder_pat None ((c # cs) @ braces n @ post) =
            c # re_sub placeholder_pat (Some c) (cs @ braces n @ post)"
        using at None re_sub_placeholder_Cons [of None c "cs @ braces n @ post"] by simp
      have ih: "re_sub placeholder_pat None (cs @ braces n @ post) =
            re_sub placeholder_pat None cs @ re_sub placeholder_pat None post"
        using 1 [rule_format, of cs] Cons by simp
      have r: "re_sub placeholder_pat None (c # cs) = c # re_sub placeholder_pat None cs"
        using None re_sub_placeholder_Cons [of None c cs] re_sub_placeholder_prev [of "Some c" cs]
        by simp
      show ?thesis
        unfolding Cons l r re_sub_placeholder_prev [of "Some c"] ih by simp
    next
      case (Some a)
      obtain m r where a: "a = (m, r)" by (cases a)
      from placeholder_at_SomeD [OF Some [unfolded a]] have len: "length r < length pre"
        by (simp add: Cons)
      have l: "re_sub placeholder_pat None ((c # cs) @ braces n @ post) =
            re_sub placeholder_pat (Some CHR ''}'') (r @ braces n @ post)"
        using at Some a re_sub_placeholder_Cons [of None c "cs @ braces n @ post"] by simp
      have ih: "re_sub placeholder_pat None (r @ braces n @ post) =
            re_sub placeholder_pat None r @ re_sub placeholder_pat None post"
        using 1 [rule_format, of r] len by simp
      have r: "re_sub placeholder_pat None (c # cs) = re_sub placeholder_pat None r"
        using Some a re_sub_placeholder_Cons [of None c cs] re_sub_placeholder_prev [of "Some CHR ''}''" r]
        by simp
      show ?thesis
        unfolding Cons l r re_sub_placeholder_prev [of "Some CHR ''}''"] ih by simp
    qed
  qed
qed

lemma contains_take: "take (length sub) s = sub \<Longrightarrow> contains sub s"
  by (cases s) auto

lemma contains_prefix: "contains sub (sub @ r)"
  by (rule contains_take) simp

lemma takeWhile_until: "x \<notin> set p \<Longrightarrow> takeWhile (\<lambda>c. c \<noteq> x) (p @ x # a) = p"
  by (induction p) auto

lemma contains_Cons: "contains sub t \<Longrightarrow> contains sub (c # t)"
  by simp

lemma contains_append_left: "contains sub t \<Longrightarrow> contains sub (u @ t)"
  by (induction u) simp_all

lemma contains_skip:
  assumes "\<forall>c \<in> set u. c \<noteq> x" and "contains (x # w) (u @ t)"
  shows "contains (x # w) t"
  using assms by (induction u) auto

lemma replace_skip:
  assumes "\<forall>c \<in> set u. c \<noteq> x"
  shows "replace (x # w) new (u @ r) = u @ replace (x # w) new r"
  using assms by (induction u) auto

lemma brace_name_unique:
  assumes "p @ CHR ''}'' # a = q @ CHR ''}'' # b" and "CHR ''}'' \<notin> set p" and "CHR ''}'' \<notin> set q"
  shows "p = q"
  using assms takeWhile_until [of "CHR ''}''" p a] takeWhile_until [of "CHR ''}''" q b]
  by simp

lemma take_eq_appendD:
  assumes "take (length a) s = a"
  shows "s = a @ drop (length a) s"
proof -
  have "s = take (length a) s @ drop (length a) s" by simp
  then show ?thesis unfolding assms .
qed

lemma contains_behind_other:
  assumes c: "contains (braces p) (braces q @ rest)" and ne: "p \<noteq> q"
    and p: "CHR ''}'' \<notin> set p" and q: "CHR ''{'' \<notin> set q" "CHR ''}'' \<notin> set q"
  shows "contains (braces p) rest"
proof -
  from c have "take (length (braces p)) (braces q @ rest) = braces p \<or>
      contains (braces p) (q @ CHR ''}'' # rest)"
    by (simp add: braces_def)
  then show ?thesis
  proof
    assume "take (length (braces p)) (braces q @ rest) = braces p"
    from take_eq_appendD [OF this]
    have "q @ CHR ''}'' # rest = p @ CHR ''}'' # drop (length (braces p)) (braces q @ rest)"
      by (simp add: braces_def)
    from brace_name_unique [OF this q(2) p] ne show ?thesis by simp
  next
    assume "contains (braces p) (q @ CHR ''}'' # rest)"
    then have a: "contains (CHR ''{'' # p @ ''}'') ((q @ ''}'') @ rest)"
      by (simp add: braces_def)
    have b: "\<forall>c \<in> set (q @ ''}''). c \<noteq> CHR ''{''"
      using q by auto
    show ?thesis
      unfolding braces_def by (rule contains_skip [OF b a])
  qed
qed

lemma contains_replace:
  assumes ne: "p \<noteq> q"
    and p: "CHR ''{'' \<notin> set p" "CHR ''}'' \<notin> set p"
    and q: "CHR ''{'' \<notin> set q" "CHR ''}'' \<notin> set q"
  shows "contains (braces p) s \<Longrightarrow> contains (braces p) (replace (braces q) v s)"
proof (induction s rule: length_induct)
  case (1 s)
  have IH: "contains (braces p) (replace (braces q) v t)"
    if "length t < length s" and "contains (braces p) t" for t
    using "1.IH" that by blast
  show ?case
  proof (cases s)
    case Nil
    with "1.prems" show ?thesis by simp
  next
    case (Cons c cs)
    show ?thesis
    proof (cases "take (length (braces q)) (c # cs) = braces q")
      case True
      let ?rest = "drop (length (braces q) - 1) cs"
      have "drop (length (braces q)) (c # cs) = ?rest"
        by (simp add: braces_def)
      with take_eq_appendD [OF True] have eq: "c # cs = braces q @ ?rest"
        by simp
      from "1.prems" have "contains (braces p) (braces q @ ?rest)"
        unfolding Cons eq .
      then have "contains (braces p) ?rest"
        by (rule contains_behind_other [OF _ ne p(2) q])
      moreover have "length ?rest < length s"
        by (simp add: Cons)
      ultimately have "contains (braces p) (replace (braces q) v ?rest)"
        using IH by blast
      then have "contains (braces p) (v @ replace (braces q) v ?rest)"
        by (rule contains_append_left)
      moreover have "replace (braces q) v (c # cs) = v @ replace (braces q) v ?rest"
        using True by (simp add: braces_def)
      ultimately show ?thesis
        by (simp only: Cons)
    next
      case False
      then have r: "replace (braces q) v (c # cs) = c # replace (braces q) v cs"
        by simp
      from "1.prems" have "take (length (braces p)) (c # cs) = braces p \<or> contains (braces p) cs"
        by (simp add: Cons)
      then show ?thesis
      proof
        assume "take (length (braces p)) (c # cs) = braces p"
        from take_eq_appendD [OF this] obtain t where "c # cs = braces p @ t"
          by blast
        then have c: "c = CHR ''{''" and cs: "cs = (p @ ''}'') @ t"
          by (simp_all add: braces_def)
        have b: "\<forall>c \<in> set (p @ ''}''). c \<noteq> CHR ''{''"
          using p by auto
        have "replace (braces q) v cs = (p @ ''}'') @ replace (braces q) v t"
          unfolding cs braces_def by (rule replace_skip [OF b])
        then have "c # replace (braces q) v cs = braces p @ replace (braces q) v t"
          by (simp add: c braces_def)
        then show ?thesis
          unfolding Cons r by (simp only: contains_prefix)
      next
        assume "contains (braces p) cs"
        moreover have "length cs < length s"
          by (simp add: Cons)
        ultimately have "contains (braces p) (replace (braces q) v cs)"
          using IH by blast
        then show ?thesis
          unfolding Cons r by simp
      qed
    qed
  qed
qed

lemma re_findall_all:
  "(\<And>t g r. pat t = Some (g, r) \<Longrightarrow> P g) \<Longrightarrow> \<forall>g \<in> set (re_findall pat s). P g"
proof (induction pat s rule: re_findall.induct)
  case (1 pat)
  show ?case by simp
next
  case (2 pat c cs)
  show ?case
  proof (cases "pat (c # cs)")
    case None
    with 2 show ?thesis by simp
  next
    case (Some a)
    obtain g r where a: "a = (g, r)" by (cases a)
    from Some a "2.prems" have "P g" by blast
    moreover from "2.IH" "2.prems" Some a
    have "length r \<le> length cs \<Longrightarrow> \<forall>g \<in> set (re_findall pat r). P g"
      and "\<not> length r \<le> length cs \<Longrightarrow> \<forall>g \<in> set (re_findall pat cs). P g"
      by blast+
    ultimately show ?thesis using Some a by auto
  qed
qed

lemma find_placeholders_valid: "\<forall>n \<in> set (find_placeholders v). valid_name n"
  unfolding find_placeholders_def
  by (rule re_findall_all) (simp add: placeholder_at_SomeD)

lemma fold_replace_contains:
  assumes p: "valid_name p" and none: "map_of table p = None"
  shows "\<forall>n \<in> set ns. valid_name n \<Longrightarrow> contains (braces p) w \<Longrightarrow>
     contains (braces p)
       (fold (\<lambda>p new_value. case map_of table p of None \<Rightarrow> new_value
              | Some v \<Rightarrow> replace (braces p) v new_value) ns w)"
proof (induction ns arbitrary: w)
  case Nil
  then show ?case by simp
next
  case (Cons n ns)
  from Cons.prems have ns: "\<forall>n \<in> set ns. valid_name n" and n: "valid_name n"
    by simp_all
  show ?case
  proof (cases "map_of table n")
    case None
    with Cons.IH [OF ns Cons.prems(2)] show ?thesis by simp
  next
    case (Some x)
    with none have ne: "p \<noteq> n" by auto
    from valid_name_brace_free [OF p] valid_name_brace_free [OF n]
    have "contains (braces p) (replace (braces n) x w)"
      by (intro contains_replace [OF ne _ _ _ _ Cons.prems(2)]) simp_all
    from Cons.IH [OF ns this] Some show ?thesis by simp
  qed
qed

lemma expand_value_contains:
  assumes "valid_name p" and "map_of table p = None" and "contains (braces p) v"
  shows "contains (braces p) (expand_value table v)"
  unfolding expand_value_def
  by (rule fold_replace_contains [OF assms(1,2) find_placeholders_valid assms(3)])

lemma map_of_dict_set:
  "map_of (dict_set k v t) x = (if x = k then Some v else map_of t x)"
  by (induction t) auto

lemma value_contains_step:
  assumes "valid_name p" and "map_of t p = None" and "value_contains t k (braces p)"
    and "map_of t k' = Some val"
  shows "map_of (dict_set k' (expand_value t val) t) p = None \<and>
         value_contains (dict_set k' (expand_value t val) t) k (braces p)"
  using assms expand_value_contains [of p t val]
  by (auto simp: value_contains_def map_of_dict_set split: option.splits)

lemma expand_keys_contains:
  assumes "valid_name p"
  shows "map_of t p = None \<Longrightarrow> value_contains t k (braces p) \<Longrightarrow>
     map_of (fst (expand_keys ks (t, u))) p = None \<and>
     value_contains (fst (expand_keys ks (t, u))) k (braces p)"
proof (induction ks arbitrary: t u)
  case Nil
  then show ?case by simp
next
  case (Cons k' ks)
  show ?case
  proof (cases "map_of t k'")
    case None
    with Cons show ?thesis by simp
  next
    case (Some val)
    show ?thesis
    proof (cases "CHR ''{'' \<in> set val \<and> find_placeholders val \<noteq> []")
      case True
      from value_contains_step [OF assms Cons.prems Some]
      have "map_of (fst (expand_keys ks (dict_set k' (expand_value t val) t, True))) p = None \<and>
         value_contains (fst (expand_keys ks (dict_set k' (expand_value t val) t, True))) k (braces p)"
        by (intro Cons.IH) (simp_all only:)
      with Some True show ?thesis by simp
    next
      case False
      with Cons Some show ?thesis by auto
    qed
  qed
qed

lemma expand_passes_contains:
  assumes "valid_name p"
  shows "map_of t p = None \<Longrightarrow> value_contains t k (braces p) \<Longrightarrow>
     value_contains (expand_passes n (t, u)) k (braces p)"
proof (induction n arbitrary: t u)
  case 0
  then show ?case by simp
next
  case (Suc n)
  show ?case
  proof (cases u)
    case False
    with Suc.prems show ?thesis by simp
  next
    case True
    obtain t' u' where e: "expand_keys (map fst t) (t, False) = (t', u')"
      by (cases "expand_keys (map fst t) (t, False)")
    from expand_keys_contains [OF assms Suc.prems, of "map fst t" False] e
    have "map_of t' p = None" "value_contains t' k (braces p)" by simp_all
    then have "value_contains (expand_passes n (t', u')) k (braces p)"
      by (rule Suc.IH)
    with True e show ?thesis by simp
  qed
qed

lemma resolve_loop_empty: "resolve_loop n [] text = text"
  by (cases n) simp_all

section \<open>Lemmas on the attributes file\<close>

lemma and_chain_all: "and_chain b bs \<Longrightarrow> b \<Longrightarrow> list_all (\<lambda>x. x) bs"
  by (induction bs arbitrary: b) auto

lemma and_chain_weaken: "and_chain b bs \<Longrightarrow> and_chain (b \<and> c) bs"
  by (cases bs) auto

lemma process_line_chain:
  assumes "and_chain (in_active_block st) (active_block_stack st)"
  shows "and_chain (in_active_block (process_line st l)) (active_block_stack (process_line st l))"
  using assms
  by (auto simp: process_line_def Let_def and_chain_weaken
           split: list.splits option.splits prod.splits)

lemma fold_process_line_chain:
  "and_chain (in_active_block st) (active_block_stack st) \<Longrightarrow>
   and_chain (in_active_block (fold (\<lambda>line st. process_line st line) ls st))
             (active_block_stack (fold (\<lambda>line st. process_line st line) ls st))"
  by (induction ls arbitrary: st) (auto simp: process_line_chain)

lemma first_pass_chain:
  "and_chain (in_active_block (first_pass ctx ls)) (active_block_stack (first_pass ctx ls))"
  unfolding first_pass_def by (rule fold_process_line_chain) simp

lemma process_line_inactive:
  "\<not> in_active_block st \<Longrightarrow> attributes (process_line st l) = attributes st"
  by (auto simp: process_line_def Let_def split: list.splits option.splits prod.splits)

lemma process_line_endif:
  "strip l = ''endif::[]'' \<Longrightarrow> active_block_stack st = [] \<Longrightarrow> process_line st l = st"
  by (simp add: process_line_def endif_re_def)

lemma strip_endif: "strip ''endif::[]'' = ''endif::[]''"
  by code_simp

lemma splitlines_gating:
  "splitlines gating_file = [''ifndef::x[]'', '':y: 1'', ''endif::[]'']"
  by code_simp

lemma line1: "strip ''ifndef::x[]'' = ''ifndef::x[]'' \<and> \<not> endif_re ''ifndef::x[]'' \<and>
   ifndef_re ''ifndef::x[]'' = Some ''x''"
  by code_simp

lemma line2: "strip '':y: 1'' = '':y: 1'' \<and> \<not> endif_re '':y: 1'' \<and>
   ifndef_re '':y: 1'' = None \<and> ifeval_re '':y: 1'' = None"
  by code_simp

lemma first_pass_gating:
  assumes "map_of ctx ''x'' \<noteq> None"
  shows "first_pass ctx (splitlines gating_file) =
    \<lparr>attributes = ctx, in_active_block = True, active_block_stack = []\<rparr>"
  using assms
  by (simp add: first_pass_def splitlines_gating process_line_def line1 line2 strip_endif
        endif_re_def)

lemma map_fst_dict_set:
  "map_of t k = Some v \<Longrightarrow> map fst (dict_set k v' t) = map fst t"
  by (induction t) (auto split: if_splits)

lemma expand_keys_fst:
  "map fst (fst (expand_keys ks (t, u))) = map fst t"
  by (induction ks arbitrary: t u) (auto simp: map_fst_dict_set split: option.splits)

lemma expand_passes_fst:
  "map fst (expand_passes n (t, u)) = map fst t"
proof (induction n arbitrary: t u)
  case 0
  show ?case by simp
next
  case (Suc n)
  show ?case
  proof (cases u)
    case False
    then show ?thesis by simp
  next
    case True
    obtain t' u' where e: "expand_keys (map fst t) (t, False) = (t', u')"
      by (cases "expand_keys (map fst t) (t, False)")
    have "map fst t' = map fst t"
      using expand_keys_fst [of "map fst t" t False] e by simp
    with Suc.IH [of t' u'] True e show ?thesis by simp
  qed
qed

lemma expand_attributes_fst: "map fst (expand_attributes t) = map fst t"
  by (simp add: expand_attributes_def expand_passes_fst)

lemma map_of_expand_attributes_None:
  "map_of (expand_attributes t) k = None \<longleftrightarrow> map_of t k = None"
  by (metis expand_attributes_fst map_of_eq_None_iff set_map)

section \<open>Lemmas on the brand check\<close>

lemma remove_loop_unchanged:
  "\<forall>kw \<in> set kws. \<not> re_search (word_pat kw) None d \<Longrightarrow>
   fold (\<lambda>keyword d. if re_search (word_pat keyword) None d
                       then re_sub (word_pat keyword) None d else d) kws d = d"
  by (induction kws) auto

lemma remove_keywords_unchanged:
  "\<forall>kw \<in> set banned. \<not> re_search (word_pat kw) None d \<Longrightarrow> remove_keywords banned d = d"
  unfolding remove_keywords_def by (rule remove_loop_unchanged) (simp add: set_sorted_by_len_desc)

section \<open>Lemmas on the sanitizer\<close>

lemma split_ws_unfold:
  "split_ws s =
     (if dropWhile is_space s = [] then []
      else takeWhile (\<lambda>c. \<not> is_space c) (dropWhile is_space s) #
           split_ws (dropWhile (\<lambda>c. \<not> is_space c) (dropWhile is_space s)))"
  by (subst split_ws.simps) (simp only: Let_def)

lemma good_words_Cons:
  "good_words (w # ws) \<longleftrightarrow> w \<noteq> [] \<and> (\<forall>c \<in> set w. \<not> is_space c) \<and> good_words ws"
  by (auto simp: good_words_def)

lemma good_words_Nil: "good_words []"
  by (simp add: good_words_def)

lemma first_word:
  assumes "t \<noteq> []" and "\<not> is_space (hd t)"
  shows "takeWhile (\<lambda>c. \<not> is_space c) t \<noteq> []"
  using assms by (simp add: takeWhile_eq_Nil_iff)

lemma split_ws_good: "good_words (split_ws s)"
proof (induction s rule: split_ws.induct)
  case (1 s)
  define t where "t = dropWhile is_space s"
  show ?case
  proof (cases "t = []")
    case True
    then have "split_ws s = []"
      unfolding t_def by (simp only: split_ws_unfold [of s] if_True simp_thms)
    then show ?thesis by (simp only: good_words_Nil)
  next
    case False
    then have "\<not> is_space (hd t)" unfolding t_def by (rule hd_dropWhile)
    with False have a: "takeWhile (\<lambda>c. \<not> is_space c) t \<noteq> []"
      by (rule first_word)
    have b: "\<forall>c \<in> set (takeWhile (\<lambda>c. \<not> is_space c) t). \<not> is_space c"
      by (blast dest: set_takeWhileD)
    have c: "good_words (split_ws (dropWhile (\<lambda>c. \<not> is_space c) t))"
      using False unfolding t_def by (rule 1 [OF refl])
    from False have "split_ws s = takeWhile (\<lambda>c. \<not> is_space c) t #
        split_ws (dropWhile (\<lambda>c. \<not> is_space c) t)"
      unfolding t_def by (simp only: split_ws_unfold [of s] if_False simp_thms)
    with a b c show ?thesis
      by (simp only: good_words_Cons simp_thms)
  qed
qed

lemma join_sp_Cons:
  "join_sp (w # ws) = (if ws = [] then w else w @ CHR '' '' # join_sp ws)"
  by (cases ws) simp_all

lemma join_sp_nonempty: "good_words ws \<Longrightarrow> ws \<noteq> [] \<Longrightarrow> join_sp ws \<noteq> []"
  by (cases ws) (auto simp: good_words_def join_sp_Cons)

lemma hd_join_sp: "good_words ws \<Longrightarrow> ws \<noteq> [] \<Longrightarrow> hd (join_sp ws) = hd (hd ws)"
  by (cases ws) (auto simp: good_words_def join_sp_Cons)

lemma last_join_sp: "good_words ws \<Longrightarrow> ws \<noteq> [] \<Longrightarrow> last (join_sp ws) = last (last ws)"
proof (induction ws rule: join_sp.induct)
  case (3 w v ws)
  then have "good_words (v # ws)" by (simp add: good_words_def)
  with 3 join_sp_nonempty [of "v # ws"] show ?case by simp
qed simp_all

lemma hd_join_sp_no_space:
  assumes "good_words ws" and "ws \<noteq> []"
  shows "\<not> is_space (hd (join_sp ws))"
proof -
  from assms have "hd ws \<in> set ws" by simp
  with assms have "hd ws \<noteq> []" "\<forall>c \<in> set (hd ws). \<not> is_space c"
    unfolding good_words_def by blast+
  then have "\<not> is_space (hd (hd ws))" by (cases "hd ws") auto
  with assms show ?thesis by (simp add: hd_join_sp)
qed

lemma last_join_sp_no_space:
  assumes "good_words ws" and "ws \<noteq> []"
  shows "\<not> is_space (last (join_sp ws))"
proof -
  from assms have "last ws \<in> set ws" by simp
  with assms have "last ws \<noteq> []" "\<forall>c \<in> set (last ws). \<not> is_space c"
    unfolding good_words_def by blast+
  then have "\<not> is_space (last (last ws))" by (cases "last ws" rule: rev_cases) auto
  with assms show ?thesis by (simp add: last_join_sp)
qed

lemma ws_pat_word:
  assumes "\<forall>c \<in> set w. \<not> is_space c" and "\<And>p. re_sub ws_pat p r = r"
  shows "re_sub ws_pat prev (w @ r) = w @ r"
  using assms(1)
proof (induction w arbitrary: prev)
  case Nil
  show ?case by (simp add: assms(2))
next
  case (Cons c w)
  then have "ws_pat prev (c # w @ r) = None"
    by (simp add: ws_pat_def ws1_def)
  with Cons show ?case by simp
qed

lemma re_sub_ws_pat_Nil: "re_sub ws_pat p [] = []"
  by (simp add: ws_pat_def ws1_def)

lemma ws_pat_joined: "good_words ws \<Longrightarrow> re_sub ws_pat prev (join_sp ws) = join_sp ws"
proof (induction ws arbitrary: prev rule: join_sp.induct)
  case 1
  show ?case by (simp add: ws_pat_def ws1_def)
next
  case (2 w)
  then have "\<forall>c \<in> set w. \<not> is_space c" by (simp add: good_words_def)
  then have "re_sub ws_pat prev (w @ []) = w @ []"
    by (rule ws_pat_word) (rule re_sub_ws_pat_Nil)
  then show ?case by simp
next
  case (3 w v ws)
  then have w: "\<forall>c \<in> set w. \<not> is_space c" and g: "good_words (v # ws)"
    by (simp_all add: good_words_def)
  let ?r = "join_sp (v # ws)"
  have ih: "re_sub ws_pat p ?r = ?r" for p
    by (rule "3.IH" [OF g])
  have ne: "?r \<noteq> []" and hd: "\<not> is_space (hd ?r)"
    using g by (simp_all add: join_sp_nonempty hd_join_sp_no_space)
  then have "dropWhile is_space ?r = ?r"
    by (cases ?r) auto
  then have "ws_pat p (CHR '' '' # ?r) = Some ('' '', ?r)" for p
    by (simp add: ws_pat_def ws1_def is_space_def)
  then have "re_sub ws_pat p (CHR '' '' # ?r) = CHR '' '' # ?r" for p
    by (simp add: ih)
  from ws_pat_word [OF w this] show ?case by simp
qed

lemma ws2_pat_word:
  assumes "\<forall>c \<in> set w. \<not> is_space c" and "\<And>p. re_sub ws2_pat p r = r"
  shows "re_sub ws2_pat prev (w @ r) = w @ r"
  using assms(1)
proof (induction w arbitrary: prev)
  case Nil
  show ?case by (simp add: assms(2))
next
  case (Cons c w)
  then have "ws2_pat prev (c # w @ r) = None"
    by (auto simp: ws2_pat_def split: list.splits)
  with Cons show ?case by simp
qed

lemma re_sub_ws2_pat_Nil: "re_sub ws2_pat p [] = []"
  by (simp add: ws2_pat_def)

lemma ws2_pat_joined: "good_words ws \<Longrightarrow> re_sub ws2_pat prev (join_sp ws) = join_sp ws"
proof (induction ws arbitrary: prev rule: join_sp.induct)
  case 1
  show ?case by (simp add: ws2_pat_def)
next
  case (2 w)
  then have "\<forall>c \<in> set w. \<not> is_space c" by (simp add: good_words_def)
  then have "re_sub ws2_pat prev (w @ []) = w @ []"
    by (rule ws2_pat_word) (rule re_sub_ws2_pat_Nil)
  then show ?case by simp
next
  case (3 w v ws)
  then have w: "\<forall>c \<in> set w. \<not> is_space c" and g: "good_words (v # ws)"
    by (simp_all add: good_words_def)
  let ?r = "join_sp (v # ws)"
  have ih: "re_sub ws2_pat p ?r = ?r" for p
    by (rule "3.IH" [OF g])
  have ne: "?r \<noteq> []" and hd: "\<not> is_space (hd ?r)"
    using g by (simp_all add: join_sp_nonempty hd_join_sp_no_space)
  then have "ws2_pat p (CHR '' '' # ?r) = None" for p
    by (cases ?r) (auto simp: ws2_pat_def)
  then have "re_sub ws2_pat p (CHR '' '' # ?r) = CHR '' '' # ?r" for p
    by (simp add: ih)
  from ws2_pat_word [OF w this] show ?case by simp
qed


subsection \<open>Steps that find nothing to do\<close>

lemma possessive_pat_None: "CHR 0x27 \<notin> set t \<Longrightarrow> possessive_pat p t = None"
proof (rule ccontr)
  assume a: "CHR 0x27 \<notin> set t" and "possessive_pat p t \<noteq> None"
  then have "take 2 (dropWhile is_word t) = [CHR 0x27, CHR ''s'']"
    by (auto simp: possessive_pat_def Let_def split: if_splits)
  then have "CHR 0x27 \<in> set (take 2 (dropWhile is_word t))" by simp
  then have "CHR 0x27 \<in> set t"
    by (blast dest: in_set_takeD set_dropWhileD)
  with a show False by simp
qed

lemma possessive_id: "CHR 0x27 \<notin> set s \<Longrightarrow> re_sub possessive_pat prev s = s"
  by (rule re_sub_never) (auto intro: possessive_pat_None)

lemma fold_phrases_id:
  "list_all (\<lambda>p. \<not> re_search (phrase_pat p) None x) ps \<Longrightarrow>
   fold (\<lambda>phrase d. re_sub (phrase_pat phrase) None d) ps x = x"
  by (induction ps) (simp_all add: re_sub_no_match)

lemma fold_words_id:
  "\<forall>w \<in> set ws. \<not> re_search (word_pat w) None x \<Longrightarrow>
   fold (\<lambda>w d. re_sub (word_pat w) None d) ws x = x"
  by (induction ws) (simp_all add: re_sub_no_match)

lemma fold_meta_id:
  "list_all (\<lambda>m. m x = None) ms \<Longrightarrow> strip x = x \<Longrightarrow>
   fold (\<lambda>pat d. strip (sub_anchored pat d)) ms x = x"
  by (induction ms) (simp_all add: sub_anchored_def)

lemma pop_stopwords_id: "\<not> is_stopword (last ws) \<Longrightarrow> pop_stopwords ws = ws"
  by (subst pop_stopwords.simps) simp

lemma cut_to_limit_id: "length x \<le> 160 \<Longrightarrow> cut_to_limit x = x"
  by (simp add: cut_to_limit_def)

lemma space_is_space: "is_space CHR '' ''"
  by code_simp

text \<open>The facts about a description that is its words joined by single spaces.\<close>

lemma joined_facts:
  assumes j: "join_sp (split_ws x) = x" and ne: "x \<noteq> []"
  shows "\<not> is_space (hd x)" and "\<not> is_space (last x)"
    and "re_sub ws_pat None x = x" and "re_sub ws2_pat None x = x"
proof -
  let ?ws = "split_ws x"
  have g: "good_words ?ws" by (rule split_ws_good)
  from j ne have n: "?ws \<noteq> []" by auto
  from hd_join_sp_no_space [OF g n] show "\<not> is_space (hd x)" unfolding j .
  from last_join_sp_no_space [OF g n] show "\<not> is_space (last x)" unfolding j .
  from ws_pat_joined [OF g, of None] show "re_sub ws_pat None x = x" unfolding j .
  from ws2_pat_joined [OF g, of None] show "re_sub ws2_pat None x = x" unfolding j .
qed

lemma clean_compliant:
  assumes "compliant config x"
  shows "clean charrefs config x = x"
proof -
  from assms have amp: "CHR ''&'' \<notin> set x" and apo: "CHR 0x27 \<notin> set x"
    and leak: "list_all (\<lambda>p. \<not> re_search (phrase_pat p) None x) leakage_phrases"
    and ban: "list_all (\<lambda>w. \<not> re_search (word_pat w) None x) (BANNED_LITERALS config)"
    and forb: "list_all (\<lambda>c. \<not> FORBIDDEN_CHARS c) x"
    and prep: "leading_preposition x = None"
    and meta: "list_all (\<lambda>m. m x = None) DOC_META_PATTERNS"
    and j: "join_sp (split_ws x) = x" and ne: "x \<noteq> []"
    and h: "hd x \<notin> set '',;:-''"and l: "last x \<notin> set '',;:-.''"
    by (simp_all add: compliant_def)
  note jf = joined_facts [OF j ne]
  have s1: "html_unescape charrefs x = x"
    using amp by (simp add: html_unescape_def)
  have s2: "fold (\<lambda>phrase d. re_sub (phrase_pat phrase) None d) leakage_phrases x = x"
    using leak by (rule fold_phrases_id)
  have st: "strip x = x"
    unfolding strip_def using ne jf(1,2) by (rule strip_with_id)
  have s4: "re_sub possessive_pat None x = x"
    using apo by (rule possessive_id)
  have s5: "filter (\<lambda>c. c \<noteq> CHR 0x27) x = x"
    using apo by (auto simp: filter_id_conv)
  have s7: "fold (\<lambda>w d. re_sub (word_pat w) None d)
              (sorted_by_len_desc (\<lambda>w. w) (BANNED_LITERALS config)) x = x"
    using ban by (intro fold_words_id) (simp add: set_sorted_by_len_desc list_all_iff)
  have s8: "map (\<lambda>c. if FORBIDDEN_CHARS c then CHR '' '' else c) x = x"
    using forb by (simp add: list_all_iff map_idI)
  have s9: "fold (\<lambda>pat d. strip (sub_anchored pat d)) DOC_META_PATTERNS x = x"
    using meta st by (rule fold_meta_id)
  have s10: "sub_anchored leading_preposition x = x"
    using prep by (simp add: sub_anchored_def)
  have s11: "strip_chars '' ,;:-'' x = x"
    unfolding strip_chars_def
  proof (rule strip_with_id [OF ne])
    from h jf(1) space_is_space show "\<not> hd x \<in> set '' ,;:-''" by auto
    from l jf(2) space_is_space show "\<not> last x \<in> set '' ,;:-''" by auto
  qed
  show ?thesis
    unfolding clean_def Let_def
    by (simp only: s1 s2 jf(3) st s4 s5 s7 s8 s9 s10 jf(4) s11)
qed

lemma finish_compliant:
  assumes "compliant config x"
  shows "finish x = capitalize_first x"
proof -
  from assms have j: "join_sp (split_ws x) = x" and ne: "x \<noteq> []"
    and len: "length x \<le> 160" and l: "last x \<notin> set '',;:-.''"
    and stop: "\<not> is_stopword (last (split_ws x))"
    by (simp_all add: compliant_def)
  note jf = joined_facts [OF j ne]
  have r: "rstrip_chars '' ,;:-.'' x = x"
    unfolding rstrip_chars_def
  proof (rule rstrip_with_id [OF ne])
    from l jf(2) space_is_space show "\<not> last x \<in> set '' ,;:-.''" by auto
  qed
  from l have dot: "last x \<noteq> CHR ''.''" by auto
  show ?thesis
    unfolding finish_def Let_def
    by (simp only: cut_to_limit_id [OF len] r pop_stopwords_id [OF stop] j) (simp add: dot)
qed

subsection \<open>The capital letter at the start\<close>

lemma upper_char_code_eq:
  "(of_char (upper_char c) :: nat) = (if is_lower c then of_char c - 32 else of_char c)"
proof (cases "is_lower c")
  case True
  then have "97 \<le> (of_char c :: nat)" "(of_char c :: nat) \<le> 122"
    by (simp_all add: is_lower_def Let_def)
  then have "(of_char c :: nat) - 32 < 256"
    by arith
  then have "((of_char c :: nat) - 32) mod 256 = of_char c - 32"
    by (rule mod_less)
  with True show ?thesis
    by (simp add: upper_char_def)
next
  case False
  then show ?thesis by (simp add: upper_char_def)
qed

lemma char_eq_code: "(c = d) = ((of_char c :: nat) = of_char d)"
  by simp

lemma lower_upper_char: "lower_char (upper_char c) = lower_char c"
proof (cases "is_lower c")
  case True
  then have b: "97 \<le> (of_char c :: nat)" "(of_char c :: nat) \<le> 122"
    by (simp_all add: is_lower_def Let_def)
  then have "65 \<le> (of_char c :: nat) - 32 \<and> (of_char c :: nat) - 32 \<le> 90"
    and nu': "\<not> (65 \<le> (of_char c :: nat) \<and> (of_char c :: nat) \<le> 90)"
    by arith+
  then have u: "is_upper (upper_char c)" and nu: "\<not> is_upper c"
    by (simp_all add: is_upper_def Let_def upper_char_code_eq True)
  from b have "(of_char (lower_char (upper_char c)) :: nat) = of_char c"
    using u by (simp add: lower_char_def upper_char_code_eq True)
  then show ?thesis
    using nu by (simp add: char_eq_code lower_char_def del: of_char_eq_iff)
next
  case False
  then show ?thesis by (simp add: upper_char_def)
qed

lemma is_space_upper_char: "is_space (upper_char c) = is_space c"
proof (cases "is_lower c")
  case True
  then have b: "97 \<le> (of_char c :: nat)" "(of_char c :: nat) \<le> 122"
    by (simp_all add: is_lower_def Let_def)
  then have "\<not> ((9 \<le> (of_char c :: nat) - 32 \<and> (of_char c :: nat) - 32 \<le> 13) \<or>
      (28 \<le> (of_char c :: nat) - 32 \<and> (of_char c :: nat) - 32 \<le> 32))"
    and "\<not> ((9 \<le> (of_char c :: nat) \<and> (of_char c :: nat) \<le> 13) \<or>
      (28 \<le> (of_char c :: nat) \<and> (of_char c :: nat) \<le> 32))"
    by arith+
  then have "\<not> is_space (upper_char c)" "\<not> is_space c"
    by (simp_all add: is_space_def Let_def upper_char_code_eq True)
  then show ?thesis
    by simp
next
  case False
  then show ?thesis by (simp add: upper_char_def)
qed

lemma is_word_upper_char: "is_word (upper_char c) = is_word c"
proof (cases "is_lower c")
  case True
  then have b: "97 \<le> (of_char c :: nat)" "(of_char c :: nat) \<le> 122"
    by (simp_all add: is_lower_def Let_def)
  then have "65 \<le> (of_char c :: nat) - 32 \<and> (of_char c :: nat) - 32 \<le> 90"
    by arith
  then have "is_upper (upper_char c)"
    by (simp add: is_upper_def Let_def upper_char_code_eq True)
  with True show ?thesis
    by (simp add: is_word_def)
next
  case False
  then show ?thesis by (simp add: upper_char_def)
qed

lemma upper_char_eq_other:
  assumes "\<not> is_upper d"
  shows "upper_char c = d \<longleftrightarrow> c = d \<and> \<not> is_lower d"
proof (cases "is_lower c")
  case True
  then have b: "97 \<le> (of_char c :: nat)" "(of_char c :: nat) \<le> 122"
    by (simp_all add: is_lower_def Let_def)
  then have "65 \<le> (of_char c :: nat) - 32 \<and> (of_char c :: nat) - 32 \<le> 90"
    by arith
  then have "is_upper (upper_char c)"
    by (simp add: is_upper_def Let_def upper_char_code_eq True)
  with assms True show ?thesis by auto
next
  case False
  then show ?thesis by (auto simp: upper_char_def)
qed

lemma upper_char_idem: "upper_char (upper_char c) = upper_char c"
proof (cases "is_lower c")
  case True
  then have "97 \<le> (of_char c :: nat)" "(of_char c :: nat) \<le> 122"
    by (simp_all add: is_lower_def Let_def)
  then have "\<not> (97 \<le> (of_char c :: nat) - 32 \<and> (of_char c :: nat) - 32 \<le> 122)"
    by arith
  then have "\<not> is_lower (upper_char c)"
    by (simp add: is_lower_def Let_def upper_char_code_eq True)
  then show ?thesis
    by (simp add: upper_char_def)
next
  case False
  then show ?thesis by (simp add: upper_char_def)
qed

lemma capitalize_first_idem: "capitalize_first (capitalize_first x) = capitalize_first x"
  by (cases x) (simp_all add: capitalize_first_def upper_char_idem)

lemma punctuation_no_letters:
  "list_all (\<lambda>d. \<not> is_upper d \<and> \<not> is_lower d)
     [CHR ''&'', CHR 0x27, CHR ''>'', CHR '':'', CHR ''|'', CHR 0x22, CHR '','', CHR '';'',
      CHR ''-'', CHR ''.'']"
  by code_simp

lemma upper_char_punctuation:
  assumes "d \<in> set [CHR ''&'', CHR 0x27, CHR ''>'', CHR '':'', CHR ''|'', CHR 0x22, CHR '','',
      CHR '';'', CHR ''-'', CHR ''.'']"
  shows "upper_char c = d \<longleftrightarrow> c = d"
proof -
  from assms punctuation_no_letters have "\<not> is_upper d" "\<not> is_lower d"
    unfolding list_all_iff by blast+
  then show ?thesis by (simp add: upper_char_eq_other)
qed

lemma punctuation_upper_char:
  assumes "d \<in> set [CHR ''&'', CHR 0x27, CHR ''>'', CHR '':'', CHR ''|'', CHR 0x22, CHR '','',
      CHR '';'', CHR ''-'', CHR ''.'']"
  shows "d = upper_char c \<longleftrightarrow> d = c"
  using upper_char_punctuation [OF assms, of c] by auto

lemma FORBIDDEN_CHARS_upper_char: "FORBIDDEN_CHARS (upper_char c) = FORBIDDEN_CHARS c"
  by (simp add: FORBIDDEN_CHARS_def upper_char_punctuation)

lemma prefix_ci_cap: "prefix_ci p (upper_char c # cs) = prefix_ci p (c # cs)"
  by (cases p) (simp_all add: lower_upper_char)

lemma re_search_prev: "pat p s = pat q s \<Longrightarrow> re_search pat p s = re_search pat q s"
  by (cases s) simp_all

lemma re_search_Cons_cong:
  assumes "pat p (a # s) = None \<longleftrightarrow> pat p (b # s) = None"
    and "re_search pat (Some a) s = re_search pat (Some b) s"
  shows "re_search pat p (a # s) = re_search pat p (b # s)"
  using assms by (cases "pat p (a # s)"; cases "pat p (b # s)") simp_all

lemma re_search_phrase_cap:
  "re_search (phrase_pat w) None (upper_char c # cs) = re_search (phrase_pat w) None (c # cs)"
proof (rule re_search_Cons_cong)
  show "phrase_pat w None (upper_char c # cs) = None \<longleftrightarrow> phrase_pat w None (c # cs) = None"
    by (simp add: phrase_pat_def prefix_ci_cap)
  show "re_search (phrase_pat w) (Some (upper_char c)) cs = re_search (phrase_pat w) (Some c) cs"
    by (rule re_search_prev) (simp add: phrase_pat_def)
qed

lemma word_match_at_prev:
  "word_opt p = word_opt q \<Longrightarrow> word_match_at w p s = word_match_at w q s"
  by (simp add: word_match_at_def boundary_def)

lemma word_opt_last_cap:
  "word_opt (Some (last (upper_char c # t))) = word_opt (Some (last (c # t)))"
  by (simp add: word_opt_def is_word_upper_char)

lemma word_match_at_cap:
  "word_match_at w None (upper_char c # cs) = word_match_at w None (c # cs)"
proof (cases w)
  case Nil
  then show ?thesis
    by (simp add: word_match_at_def boundary_def head_opt_def word_opt_def is_word_upper_char)
next
  case (Cons a v)
  have "boundary (Some (last (upper_char c # take (length v) cs))) z =
        boundary (Some (last (c # take (length v) cs))) z" for z
    using word_opt_last_cap [of c "take (length v) cs"] by (simp add: boundary_def)
  then show ?thesis
    unfolding Cons word_match_at_def
    by (simp add: prefix_ci_cap [of "a # v", simplified] boundary_def head_opt_def word_opt_def
          is_word_upper_char lower_upper_char)
qed

lemma re_search_word_cap:
  "re_search (word_pat w) None (upper_char c # cs) = re_search (word_pat w) None (c # cs)"
proof -
  have "word_pat w (Some (upper_char c)) cs = word_pat w (Some c) cs"
    unfolding word_pat_def
    using word_match_at_prev [of "Some (upper_char c)" "Some c" w cs]
    by (simp add: word_opt_def is_word_upper_char)
  then have "re_search (word_pat w) (Some (upper_char c)) cs = re_search (word_pat w) (Some c) cs"
    by (rule re_search_prev)
  moreover have "word_pat w None (upper_char c # cs) = None \<longleftrightarrow> word_pat w None (c # cs) = None"
    by (simp add: word_pat_def word_match_at_cap)
  ultimately show ?thesis
    by (rule re_search_Cons_cong [rotated])
qed

lemma lit_ci_cap: "p \<noteq> [] \<Longrightarrow> lit_ci p (upper_char c # cs) = lit_ci p (c # cs)"
  by (cases p) (simp_all add: lit_ci_def prefix_ci_cap lower_upper_char)

lemma alt_lit_ci_cap:
  "[] \<notin> set ps \<Longrightarrow> alt (map lit_ci ps) (upper_char c # cs) = alt (map lit_ci ps) (c # cs)"
proof (induction ps)
  case Nil
  show ?case by simp
next
  case (Cons a ps)
  then have "a \<noteq> []" and "[] \<notin> set ps"
    by auto
  then show ?case
    using Cons.IH by (simp add: lit_ci_cap split: option.splits)
qed

lemma seq_cap: "m (upper_char c # cs) = m (c # cs) \<Longrightarrow>
    seq (m # ms) (upper_char c # cs) = seq (m # ms) (c # cs)"
  by simp

lemma seq_ws0_cap:
  assumes "\<not> is_space c" and "m (upper_char c # cs) = m (c # cs)"
  shows "seq (ws0 # m # ms) (upper_char c # cs) = seq (ws0 # m # ms) (c # cs)"
  using assms by (simp add: ws0_def is_space_upper_char)

lemma patterns_cap:
  assumes "\<not> is_space c"
  shows "list_all (\<lambda>m. m (upper_char c # cs) = None) (leading_preposition # DOC_META_PATTERNS) =
         list_all (\<lambda>m. m (c # cs) = None) (leading_preposition # DOC_META_PATTERNS)"
proof -
  have "leading_preposition (upper_char c # cs) = leading_preposition (c # cs)"
    unfolding leading_preposition_def by (rule seq_cap, rule alt_lit_ci_cap) simp
  moreover have "list_all (\<lambda>m. m (upper_char c # cs) = m (c # cs)) DOC_META_PATTERNS"
    unfolding DOC_META_PATTERNS_def list.pred_inject
    by (intro conjI seq_ws0_cap [OF assms] lit_ci_cap TrueI) simp_all
  ultimately show ?thesis
    by (fastforce simp: list_all_iff)
qed

lemma split_ws_Nil: "split_ws [] = []"
  unfolding split_ws_unfold [of "[]"] by simp

lemma split_ws_space:
  assumes "is_space c"
  shows "split_ws (c # r) = split_ws r"
proof -
  from assms have "dropWhile is_space (c # r) = dropWhile is_space r"
    by simp
  then show ?thesis
    unfolding split_ws_unfold [of "c # r"] split_ws_unfold [of r] by (simp only:)
qed

lemma split_ws_word:
  assumes "w \<noteq> []" and "\<forall>c \<in> set w. \<not> is_space c"
  shows "split_ws (w @ CHR '' '' # r) = w # split_ws r" and "split_ws w = [w]"
proof -
  from assms have h: "\<not> is_space (hd w)"
    by (cases w) auto
  with assms have d1: "dropWhile is_space (w @ CHR '' '' # r) = w @ CHR '' '' # r"
    and d2: "dropWhile is_space w = w"
    by (cases w; simp)+
  from assms have t1: "takeWhile (\<lambda>c. \<not> is_space c) (w @ CHR '' '' # r) = w"
    and r1: "dropWhile (\<lambda>c. \<not> is_space c) (w @ CHR '' '' # r) = CHR '' '' # r"
    and t2: "takeWhile (\<lambda>c. \<not> is_space c) w = w"
    and r2: "dropWhile (\<lambda>c. \<not> is_space c) w = []"
    by (simp_all add: takeWhile_append2 dropWhile_append2 space_is_space)
  show "split_ws (w @ CHR '' '' # r) = w # split_ws r"
    unfolding split_ws_unfold [of "w @ CHR '' '' # r"] d1 t1 r1
    using assms(1) by (simp add: split_ws_space [OF space_is_space])
  show "split_ws w = [w]"
    unfolding split_ws_unfold [of w] d2 t2 r2
    using assms(1) by (simp add: split_ws_Nil)
qed

lemma split_join: "good_words ws \<Longrightarrow> split_ws (join_sp ws) = ws"
proof (induction ws)
  case Nil
  show ?case by (simp add: split_ws_Nil)
next
  case (Cons w ws)
  then have w: "w \<noteq> []" "\<forall>c \<in> set w. \<not> is_space c" and g: "good_words ws"
    by (simp_all add: good_words_Cons)
  show ?case
  proof (cases "ws = []")
    case True
    then show ?thesis by (simp add: split_ws_word(2) [OF w])
  next
    case False
    then have "join_sp (w # ws) = w @ CHR '' '' # join_sp ws"
      by (simp add: join_sp_Cons)
    then show ?thesis
      using Cons.IH [OF g] by (simp add: split_ws_word(1) [OF w])
  qed
qed

lemma capitalize_first_join:
  "w \<noteq> [] \<Longrightarrow> capitalize_first (join_sp (w # ws)) = join_sp (capitalize_first w # ws)"
  by (cases w) (simp_all add: capitalize_first_def join_sp_Cons)

lemma lower_capitalize_first: "lower (capitalize_first w) = lower w"
  by (cases w) (simp_all add: capitalize_first_def lower_def lower_upper_char)

lemma is_stopword_capitalize_first: "is_stopword (capitalize_first w) = is_stopword w"
  by (simp add: is_stopword_def lower_capitalize_first)

lemma capitalize_first_good:
  assumes "good_words (w # ws)"
  shows "good_words (capitalize_first w # ws)"
proof -
  from assms obtain c v where w: "w = c # v"
    by (cases w) (auto simp: good_words_Cons)
  with assms show ?thesis
    by (simp add: good_words_Cons capitalize_first_def is_space_upper_char)
qed

lemma compliant_capitalize_first:
  assumes "compliant config x"
  shows "compliant config (capitalize_first x)"
proof -
  from assms have amp: "CHR ''&'' \<notin> set x" and apo: "CHR 0x27 \<notin> set x"
    and leak: "list_all (\<lambda>p. \<not> re_search (phrase_pat p) None x) leakage_phrases"
    and ban: "list_all (\<lambda>w. \<not> re_search (word_pat w) None x) (BANNED_LITERALS config)"
    and forb: "list_all (\<lambda>c. \<not> FORBIDDEN_CHARS c) x"
    and pats: "list_all (\<lambda>m. m x = None) (leading_preposition # DOC_META_PATTERNS)"
    and j: "join_sp (split_ws x) = x" and ne: "x \<noteq> []"
    and len: "length x \<le> 160"
    and h: "hd x \<notin> set '',;:-''"and l: "last x \<notin> set '',;:-.''"
    and stop: "\<not> is_stopword (last (split_ws x))"
    by (simp_all add: compliant_def)
  from ne obtain c cs where x: "x = c # cs"
    by (cases x) auto
  let ?y = "upper_char c # cs"
  have y: "capitalize_first x = ?y"
    by (simp add: x capitalize_first_def)
  have g: "good_words (split_ws x)"
    by (rule split_ws_good)
  from j ne obtain w ws where ws: "split_ws x = w # ws"
    by (cases "split_ws x") auto
  from g have w: "w \<noteq> []"
    by (simp add: ws good_words_Cons)
  have sp: "\<not> is_space c"
    using joined_facts(1) [OF j ne] by (simp add: x)
  have yj: "?y = join_sp (capitalize_first w # ws)"
    using capitalize_first_join [OF w, of ws] j by (simp add: ws y [symmetric])
  have gy: "good_words (capitalize_first w # ws)"
    using g unfolding ws by (rule capitalize_first_good)
  have sy: "split_ws ?y = capitalize_first w # ws"
    unfolding yj by (rule split_join [OF gy])
  have c1: "CHR ''&'' \<notin> set ?y"
    using amp by (simp add: x upper_char_punctuation punctuation_upper_char)
  have c2: "CHR 0x27 \<notin> set ?y"
    using apo by (simp add: x upper_char_punctuation punctuation_upper_char)
  have c3: "list_all (\<lambda>p. \<not> re_search (phrase_pat p) None ?y) leakage_phrases"
    using leak by (simp only: x re_search_phrase_cap)
  have c4: "list_all (\<lambda>w. \<not> re_search (word_pat w) None ?y) (BANNED_LITERALS config)"
    using ban by (simp only: x re_search_word_cap)
  have c5: "list_all (\<lambda>c. \<not> FORBIDDEN_CHARS c) ?y"
    using forb by (simp add: x FORBIDDEN_CHARS_upper_char)
  have c6: "list_all (\<lambda>m. m ?y = None) (leading_preposition # DOC_META_PATTERNS)"
    using pats by (simp only: x patterns_cap [OF sp])
  have c7: "join_sp (split_ws ?y) = ?y"
    unfolding sy by (rule yj [symmetric])
  have c8: "length ?y \<le> 160"
    using len by (simp add: x)
  have c9: "hd ?y \<notin> set '',;:-''"
    using h by (simp add: x upper_char_punctuation punctuation_upper_char)
  have c10: "last ?y \<notin> set '',;:-.''"
    using l by (cases "cs = []") (simp_all add: x upper_char_punctuation punctuation_upper_char)
  have c11: "\<not> is_stopword (last (split_ws ?y))"
    using stop unfolding sy ws
    by (cases "ws = []") (simp_all add: is_stopword_capitalize_first)
  show ?thesis
    unfolding y compliant_def
    using c1 c2 c3 c4 c5 c6 c7 c8 c9 c10 c11 by (simp only: simp_thms list.simps)
qed

lemma sanitize_compliant:
  assumes "compliant config x"
  shows "sanitize_and_finalize charrefs config x = capitalize_first x"
proof -
  from assms have "x \<noteq> []"
    by (simp add: compliant_def)
  then show ?thesis
    unfolding sanitize_and_finalize_def Let_def clean_compliant [OF assms]
    by (simp add: finish_compliant [OF assms])
qed

section \<open>The length of an accepted description\<close>

lemma unbroken_draft_value:
  "sanitize_and_finalize no_charrefs default_config unbroken_draft = CHR ''A'' # tl unbroken_draft"
  by code_simp

lemma unbroken_draft_length: "length (CHR ''A'' # tl unbroken_draft) = 161"
  by code_simp

text \<open>
  C1. The claim is that every accepted description has between 100 and 160 characters.
  For a draft of 161 characters without whitespace the cut to 161 characters finds no
  space to go back to, the description keeps its 161 characters and passes the length
  gate: the accepted description is one character over the ceiling.
\<close>

theorem accepted_description_over_ceiling:
  "accepted_description no_charrefs default_config unbroken_draft unbroken_draft =
     Some (CHR ''A'' # tl unbroken_draft) \<and>
   length (CHR ''A'' # tl unbroken_draft) = 161"
proof -
  have "\<not> too_short (CHR ''A'' # tl unbroken_draft)"
    unfolding too_short_def unbroken_draft_length by simp
  then show ?thesis
    by (simp only: accepted_description_def Let_def unbroken_draft_value
          unbroken_draft_length if_False simp_thms)
qed

section \<open>The round trip example\<close>

lemma round_trip_value:
  "sanitize_and_finalize charrefs default_config round_trip_draft =
     ''How to configure the Foo network stack for your infrastructure''"
  by code_simp

text \<open>
  C2. The claim is that the result for the draft of the example starts with
  \<open>Configure the Foo network stack for your infrastructure\<close>. It does not: the
  lead-in \<open>This guide describes\<close> is cut off, the words \<open>how to\<close> stay.
\<close>

theorem round_trip_counterexample:
  "\<not> starts_with (sanitize_and_finalize no_charrefs default_config round_trip_draft)
       ''Configure the Foo network stack for your infrastructure''"
  by (simp add: round_trip_value starts_with_def)

text \<open>
  C2, as amended. For the draft of the example and no banned literals the sanitizer cuts
  off the lead-in \<open>This guide describes\<close>, drops the trailing stop-words \<open>and for\<close>
  and capitalizes: the result is
  \<open>How to configure the Foo network stack for your infrastructure\<close>.
\<close>

theorem round_trip_result:
  "sanitize_and_finalize charrefs default_config round_trip_draft =
     ''How to configure the Foo network stack for your infrastructure''"
  by (rule round_trip_value)

section \<open>Idempotence of the sanitizer\<close>

lemma by_using_listed: "listed_conditions default_config by_using_draft"
  by code_simp

lemma by_using_once:
  "sanitize_and_finalize charrefs default_config by_using_draft =
     ''Using the installer you set up the server''"
  by code_simp

lemma by_using_twice:
  "sanitize_and_finalize charrefs default_config ''Using the installer you set up the server'' =
     ''The installer you set up the server''"
  by code_simp

text \<open>
  C3. The claim is that the sanitizer applied twice gives what it gives applied once, for
  every description without banned literals and forbidden characters, of at most 160
  characters, that ends neither in a stop-word nor in a period. The draft
  \<open>By using the installer you set up the server\<close> meets the four conditions; the sanitizer
  takes one preposition from its start at each application.
\<close>

theorem idempotence_counterexample:
  "listed_conditions default_config by_using_draft \<and>
   sanitize_and_finalize no_charrefs default_config
     (sanitize_and_finalize no_charrefs default_config by_using_draft) \<noteq>
   sanitize_and_finalize no_charrefs default_config by_using_draft"
  by (simp add: by_using_listed by_using_once by_using_twice)

text \<open>
  C3, as amended. For a description in final form the sanitizer does nothing but
  capitalize the first character, and applied twice it gives what it gives applied once.
\<close>

theorem final_form_idempotent:
  assumes "compliant config x"
  shows "sanitize_and_finalize charrefs config (sanitize_and_finalize charrefs config x) =
           sanitize_and_finalize charrefs config x \<and>
         sanitize_and_finalize charrefs config x = capitalize_first x"
  using sanitize_compliant [OF assms] sanitize_compliant [OF compliant_capitalize_first [OF assms]]
  by (simp add: capitalize_first_idem)

theorem final_form_idempotent_witness:
  "compliant default_config lowercase_draft \<and>
   sanitize_and_finalize no_charrefs default_config
     (sanitize_and_finalize no_charrefs default_config lowercase_draft) =
   sanitize_and_finalize no_charrefs default_config lowercase_draft \<and>
   sanitize_and_finalize no_charrefs default_config lowercase_draft =
     ''Configure the network stack''"
proof -
  have c: "compliant default_config lowercase_draft"
    by code_simp
  have v: "capitalize_first lowercase_draft = ''Configure the network stack''"
    by code_simp
  from final_form_idempotent [OF c, of no_charrefs] c show ?thesis
    unfolding v by blast
qed

section \<open>Unresolved placeholders\<close>

text \<open>
  C4. \<open>resolve_attributes\<close> deletes every placeholder that is left in the text after
  the capped passes, and every placeholder of the text when the table is empty: a text
  \<open>pre {n} post\<close> becomes what is left of \<open>pre\<close> followed by what is left of
  \<open>post\<close>. The expansion inside the table keeps a placeholder \<open>{p}\<close> whose name is
  no key: a value that holds it before the passes holds it after them. Both are total
  functions, neither has an error result.
\<close>

theorem unresolved_placeholders:
  "resolve_attributes s [] = re_sub placeholder_pat None s \<and>
   (valid_name n \<longrightarrow>
      resolve_attributes (pre @ braces n @ post) [] =
        resolve_attributes pre [] @ resolve_attributes post []) \<and>
   (valid_name n \<and> resolve_loop 10 table s = pre @ braces n @ post \<longrightarrow>
      resolve_attributes s table =
        re_sub placeholder_pat None pre @ re_sub placeholder_pat None post) \<and>
   (valid_name p \<and> map_of table p = None \<and> value_contains table k (braces p) \<longrightarrow>
      value_contains (expand_attributes table) k (braces p))"
proof (intro conjI impI)
  show "resolve_attributes s [] = re_sub placeholder_pat None s"
    by (simp add: resolve_attributes_def)
next
  assume "valid_name n"
  then show "resolve_attributes (pre @ braces n @ post) [] =
      resolve_attributes pre [] @ resolve_attributes post []"
    by (simp add: resolve_attributes_def re_sub_placeholder_token)
next
  assume a: "valid_name n \<and> resolve_loop 10 table s = pre @ braces n @ post"
  have "resolve_attributes s table = re_sub placeholder_pat None (resolve_loop 10 table s)"
    by (cases "table = []")
       (simp_all add: resolve_attributes_def resolve_loop_empty del: resolve_loop.simps)
  with a show "resolve_attributes s table =
        re_sub placeholder_pat None pre @ re_sub placeholder_pat None post"
    by (simp add: re_sub_placeholder_token del: resolve_loop.simps)
next
  assume "valid_name p \<and> map_of table p = None \<and> value_contains table k (braces p)"
  then show "value_contains (expand_attributes table) k (braces p)"
    unfolding expand_attributes_def by (intro expand_passes_contains) simp_all
qed

theorem unresolved_placeholders_witness:
  "valid_name ''zz'' \<and>
   resolve_attributes (''x '' @ braces ''zz'' @ '' y'') [] = ''x  y'' \<and>
   resolve_loop 10 [(''a'', ''1'')] ''{a}{zz}!'' = ''1'' @ braces ''zz'' @ ''!'' \<and>
   resolve_attributes ''{a}{zz}!'' [(''a'', ''1'')] = ''1!'' \<and>
   map_of [(''k'', ''{zz} {a}''), (''a'', ''1'')] ''zz'' = None \<and>
   value_contains [(''k'', ''{zz} {a}''), (''a'', ''1'')] ''k'' (braces ''zz'') \<and>
   value_contains (expand_attributes [(''k'', ''{zz} {a}''), (''a'', ''1'')]) ''k'' (braces ''zz'')"
proof -
  have v: "valid_name ''zz''"
    by code_simp
  have l: "resolve_loop 10 [(''a'', ''1'')] ''{a}{zz}!'' = ''1'' @ braces ''zz'' @ ''!''"
    by code_simp
  have m: "map_of [(''k'', ''{zz} {a}''), (''a'', ''1'')] ''zz'' = None"
    by simp
  have c: "value_contains [(''k'', ''{zz} {a}''), (''a'', ''1'')] ''k'' (braces ''zz'')"
    by code_simp
  have e1: "resolve_attributes ''x '' [] @ resolve_attributes '' y'' [] = ''x  y''"
    by code_simp
  have e2: "re_sub placeholder_pat None ''1'' @ re_sub placeholder_pat None ''!'' = ''1!''"
    by code_simp
  from unresolved_placeholders [where n = "''zz''" and pre = "''x ''" and post = "'' y''"] v
  have "resolve_attributes (''x '' @ braces ''zz'' @ '' y'') [] =
      resolve_attributes ''x '' [] @ resolve_attributes '' y'' []"
    by blast
  then have 1: "resolve_attributes (''x '' @ braces ''zz'' @ '' y'') [] = ''x  y''"
    by (simp only: e1)
  from unresolved_placeholders [where n = "''zz''" and pre = "''1''" and post = "''!''"
      and table = "[(''a'', ''1'')]" and s = "''{a}{zz}!''"] v l
  have "resolve_attributes ''{a}{zz}!'' [(''a'', ''1'')] =
      re_sub placeholder_pat None ''1'' @ re_sub placeholder_pat None ''!''"
    by blast
  then have 2: "resolve_attributes ''{a}{zz}!'' [(''a'', ''1'')] = ''1!''"
    by (simp only: e2)
  from unresolved_placeholders [where table = "[(''k'', ''{zz} {a}''), (''a'', ''1'')]"
      and p = "''zz''" and k = "''k''"] v m c
  have 3: "value_contains (expand_attributes [(''k'', ''{zz} {a}''), (''a'', ''1'')]) ''k''
      (braces ''zz'')"
    by blast
  from v l m c 1 2 3 show ?thesis by blast
qed

section \<open>The fixed point and the circular table\<close>

text \<open>
  C5. The claim is that resolving \<open>{a}\<close> against the circular table leaves a residual
  placeholder in the result. \<open>resolve_attributes\<close> returns the empty text: its pass
  over the table turns \<open>{a}\<close> into \<open>{b}\<close> and back, the loop stops because nothing
  changed, and the placeholder that is left is deleted.
\<close>

theorem circular_text_counterexample:
  "resolve_attributes ''{a}'' circular_table = [] \<and>
   \<not> re_search placeholder_pat None (resolve_attributes ''{a}'' circular_table)"
  by code_simp

text \<open>
  C5, as amended. With the table \<open>a = {b}\<close>, \<open>b = X\<close> the text \<open>{a}\<close> resolves to
  \<open>X\<close>, in the first of the 10 passes. With the circular table \<open>a = {b}\<close>,
  \<open>b = {a}\<close> the expansion inside the table ends after its 10 passes and leaves the
  placeholder \<open>{a}\<close> in both values; a further pass would change nothing and would
  still report unresolved placeholders, so it is the cap that ends the loop.
  \<open>resolve_attributes\<close> of the text \<open>{a}\<close> with the circular table ends with the text
  \<open>{a}\<close> after its loop and returns the empty text. No case is an error.
\<close>

theorem fixed_point_and_cycle:
  "resolve_attributes ''{a}'' chain_table = ''X'' \<and>
   resolve_loop 1 chain_table ''{a}'' = ''X'' \<and>
   expand_attributes circular_table = [(''a'', ''{a}''), (''b'', ''{a}'')] \<and>
   expand_keys [''a'', ''b''] ([(''a'', ''{a}''), (''b'', ''{a}'')], False) =
     ([(''a'', ''{a}''), (''b'', ''{a}'')], True) \<and>
   resolve_loop 10 circular_table ''{a}'' = ''{a}'' \<and>
   resolve_attributes ''{a}'' circular_table = []"
  by code_simp

section \<open>Conditional blocks\<close>

lemma lit_SomeD: "lit p s = Some r \<Longrightarrow> s = p @ r"
  by (auto simp: lit_def dest: take_eq_appendD split: if_splits)

lemma process_line_ifndef:
  assumes "ifndef_re (strip l) = Some k"
  shows "process_line st l =
    st\<lparr>active_block_stack := in_active_block st # active_block_stack st,
       in_active_block := in_active_block st \<and> map_of (attributes st) k = None\<rparr>"
proof -
  from assms obtain r where "lit ''ifndef::'' (strip l) = Some r"
    by (auto simp: ifndef_re_def split: option.splits)
  then have "strip l = ''ifndef::'' @ r"
    by (rule lit_SomeD)
  then have "strip l \<noteq> []" "take 2 (strip l) \<noteq> ''//''" "\<not> endif_re (strip l)"
    by (simp_all add: endif_re_def)
  with assms show ?thesis
    by (simp add: process_line_def)
qed

text \<open>
  C6. While the attributes file is read, a block that is active lies in active blocks
  only: whenever \<open>in_active_block\<close> holds, no flag of the stack is false; and a line
  that opens a block with \<open>ifndef\<close> makes it active exactly if the enclosing block is
  active and the attribute is not defined. No line changes the table while the block is
  inactive. A closing line on an empty stack changes nothing. For the file
  \<open>ifndef::x[]\<close>, \<open>:y: 1\<close>, \<open>endif::[]\<close> and an initial context that defines
  \<open>x\<close> and not \<open>y\<close>, the resulting table does not define \<open>y\<close>.
\<close>

theorem conditional_gating:
  "(in_active_block (first_pass ctx ls) \<longrightarrow>
      False \<notin> set (active_block_stack (first_pass ctx ls))) \<and>
   (ifndef_re (strip l) = Some k \<longrightarrow>
      in_active_block (process_line st l) =
        (in_active_block st \<and> map_of (attributes st) k = None) \<and>
      active_block_stack (process_line st l) = in_active_block st # active_block_stack st) \<and>
   (\<not> in_active_block st \<longrightarrow> attributes (process_line st l) = attributes st) \<and>
   (active_block_stack st = [] \<longrightarrow> process_line st ''endif::[]'' = st) \<and>
   (map_of ctx ''x'' \<noteq> None \<and> map_of ctx ''y'' = None \<longrightarrow>
      map_of (load_and_process_adoc_attributes (Some gating_file) ctx) ''y'' = None)"
proof (intro conjI impI)
  assume "in_active_block (first_pass ctx ls)"
  with first_pass_chain [of ctx ls]
  have "list_all (\<lambda>x. x) (active_block_stack (first_pass ctx ls))"
    by (rule and_chain_all)
  then show "False \<notin> set (active_block_stack (first_pass ctx ls))"
    by (auto simp: list_all_iff)
next
  assume "ifndef_re (strip l) = Some k"
  then show "in_active_block (process_line st l) =
      (in_active_block st \<and> map_of (attributes st) k = None)"
    by (simp add: process_line_ifndef)
next
  assume "ifndef_re (strip l) = Some k"
  then show "active_block_stack (process_line st l) = in_active_block st # active_block_stack st"
    by (simp add: process_line_ifndef)
next
  assume "\<not> in_active_block st"
  then show "attributes (process_line st l) = attributes st"
    by (rule process_line_inactive)
next
  assume "active_block_stack st = []"
  with strip_endif show "process_line st ''endif::[]'' = st"
    by (rule process_line_endif)
next
  assume "map_of ctx ''x'' \<noteq> None \<and> map_of ctx ''y'' = None"
  then show "map_of (load_and_process_adoc_attributes (Some gating_file) ctx) ''y'' = None"
    by (simp add: load_and_process_adoc_attributes_def first_pass_gating
          map_of_expand_attributes_None)
qed

theorem conditional_gating_witness:
  "in_active_block (first_pass [(''x'', ''1'')] [''ifndef::y[]'', '':z: 2'']) \<and>
   False \<notin> set (active_block_stack (first_pass [(''x'', ''1'')] [''ifndef::y[]'', '':z: 2''])) \<and>
   ifndef_re (strip '' ifndef::x[]'') = Some ''x'' \<and>
   \<not> in_active_block (process_line inactive_state '' ifndef::x[]'') \<and>
   active_block_stack (process_line inactive_state '' ifndef::x[]'') = [False, True] \<and>
   \<not> in_active_block inactive_state \<and>
   attributes (process_line inactive_state '':y: 1'') = attributes inactive_state \<and>
   active_block_stack start_state = [] \<and>
   process_line start_state ''endif::[]'' = start_state \<and>
   map_of [(''x'', ''1'')] ''x'' \<noteq> None \<and> map_of [(''x'', ''1'')] ''y'' = None \<and>
   map_of (load_and_process_adoc_attributes (Some gating_file) [(''x'', ''1'')]) ''y'' = None"
proof -
  have a: "in_active_block (first_pass [(''x'', ''1'')] [''ifndef::y[]'', '':z: 2''])"
    by code_simp
  have b: "ifndef_re (strip '' ifndef::x[]'') = Some ''x''"
    by code_simp
  have c: "\<not> in_active_block inactive_state" "active_block_stack start_state = []"
    "in_active_block inactive_state = False" "active_block_stack inactive_state = [True]"
    by (simp_all add: inactive_state_def start_state_def)
  have d: "map_of [(''x'', ''1'')] ''x'' \<noteq> None \<and> map_of [(''x'', ''1'')] ''y'' = None"
    by simp
  note t1 = conditional_gating [of "[(''x'', ''1'')]" "[''ifndef::y[]'', '':z: 2'']"
      "'' ifndef::x[]''" "''x''" inactive_state]
  note t2 = conditional_gating [of "[(''x'', ''1'')]" "[''ifndef::y[]'', '':z: 2'']"
      "'':y: 1''" "''x''" inactive_state]
  note t3 = conditional_gating [of "[(''x'', ''1'')]" "[''ifndef::y[]'', '':z: 2'']"
      "'':y: 1''" "''x''" start_state]
  from t1 a have 1: "False \<notin> set (active_block_stack
      (first_pass [(''x'', ''1'')] [''ifndef::y[]'', '':z: 2'']))"
    by blast
  from t1 b c have 2: "\<not> in_active_block (process_line inactive_state '' ifndef::x[]'')"
    and 3: "active_block_stack (process_line inactive_state '' ifndef::x[]'') = [False, True]"
    by simp_all
  from t2 c have 4: "attributes (process_line inactive_state '':y: 1'') = attributes inactive_state"
    by blast
  from t3 c have 5: "process_line start_state ''endif::[]'' = start_state"
    by blast
  from t1 d have 6: "map_of (load_and_process_adoc_attributes (Some gating_file)
      [(''x'', ''1'')]) ''y'' = None"
    by blast
  from a b c(1,2) d 1 2 3 4 5 6 show ?thesis by blast
qed

section \<open>Brand isolation\<close>

text \<open>
  C7. The claim is that the description returned for a file of one family holds no
  full display name of a brand of the other family. For the brands \<open>openSUSE Leap\<close>
  (family opensuse) and \<open>SLE HA\<close> (family suse) and a file whose path holds \<open>leap\<close>,
  the only banned keyword is \<open>SLE HA\<close>, since its words are short. In the description
  \<open>Use SLE SLE HA HA now\<close> the inner \<open>SLE HA\<close> is removed, two spaces stay between
  the outer \<open>SLE\<close> and \<open>HA\<close>, and the repair that collapses spaces puts the banned
  name together again: the returned description holds \<open>SLE HA\<close> as whole words.
\<close>

theorem brand_name_reassembled:
  "file_context_of ''docs/leap/index.adoc'' [leap_brand, sleha_brand] = Some leap_brand \<and>
   banned_keywords_of leap_brand [leap_brand, sleha_brand] = [''SLE HA''] \<and>
   post_process_description ''Use SLE SLE HA HA now'' ''docs/leap/index.adoc''
       [leap_brand, sleha_brand] = (''Use SLE HA now'', Some UPDATED) \<and>
   re_search (word_pat (name sleha_brand)) None ''Use SLE HA now''"
  by code_simp

section \<open>No entities file, no brands\<close>

text \<open>
  C8. Without a path, with an empty path or with a path where no file exists,
  \<open>load_brand_config_from_entities\<close> returns the empty list of brands and no error;
  and with an empty list of brands \<open>post_process_description\<close> returns the description
  as it is, with no status.
\<close>

theorem no_entities_no_check:
  "load_brand_config_from_entities read_file None = Inr [] \<and>
   load_brand_config_from_entities read_file (Some []) = Inr [] \<and>
   (read_file path = None \<longrightarrow> load_brand_config_from_entities read_file (Some path) = Inr []) \<and>
   post_process_description d p [] = (d, None)"
  by (simp add: load_brand_config_from_entities_def post_process_description_def)

theorem no_entities_no_check_witness:
  "empty_disk ''entities.ent'' = None \<and>
   load_brand_config_from_entities empty_disk (Some ''entities.ent'') = Inr [] \<and>
   post_process_description ''Install the server'' ''docs/leap/index.adoc'' [] =
     (''Install the server'', None)"
  using no_entities_no_check [of empty_disk "''entities.ent''" "''Install the server''"
      "''docs/leap/index.adoc''"]
  by (simp add: empty_disk_def)

section \<open>A whitespace-normal result\<close>

text \<open>
  C9. The claim is that a non-empty result of the sanitizer has no whitespace at its
  end. For the draft \<open>Run "zypper up". Then\<close> the quotes become spaces, the period
  becomes a word of its own, the stop-word \<open>Then\<close> behind it is dropped, and the
  removal of the final period leaves the space that joined it: the result ends with a
  space.
\<close>

theorem result_with_trailing_space:
  "sanitize_and_finalize no_charrefs default_config quoted_draft = ''Run zypper up '' \<and>
   is_space (last (sanitize_and_finalize no_charrefs default_config quoted_draft))"
  by code_simp

section \<open>The frame of the brand check\<close>

text \<open>
  C10. When a brand is found for the file and no banned keyword occurs in the
  description as a whole word, without regard to case, \<open>post_process_description\<close>
  returns the description as it is and no status: no repair is applied. When it
  returns the status \<open>UPDATED\<close>, a banned keyword did occur in the description, and
  the result is the repair of the description with the keywords removed.
\<close>

theorem brand_check_frame:
  "(file_context_of p brands = Some fc \<and>
    list_all (\<lambda>kw. \<not> re_search (word_pat kw) None d) (banned_keywords_of fc brands)
    \<longrightarrow> post_process_description d p brands = (d, None)) \<and>
   (post_process_description d p brands = (d', Some UPDATED) \<longrightarrow>
    (\<exists>fc kw. file_context_of p brands = Some fc \<and> kw \<in> set (banned_keywords_of fc brands) \<and>
       re_search (word_pat kw) None d \<and>
       d' = repair (remove_keywords (banned_keywords_of fc brands) d)))"
proof (intro conjI impI)
  assume a: "file_context_of p brands = Some fc \<and>
    list_all (\<lambda>kw. \<not> re_search (word_pat kw) None d) (banned_keywords_of fc brands)"
  then have "remove_keywords (banned_keywords_of fc brands) d = d"
    by (simp add: remove_keywords_unchanged list_all_iff)
  with a show "post_process_description d p brands = (d, None)"
    by (simp add: post_process_description_def Let_def)
next
  assume u: "post_process_description d p brands = (d', Some UPDATED)"
  then obtain fc where fc: "file_context_of p brands = Some fc"
    by (auto simp: post_process_description_def split: if_splits option.splits)
  let ?b = "banned_keywords_of fc brands"
  from u fc have ch: "remove_keywords ?b d \<noteq> d" and d': "d' = repair (remove_keywords ?b d)"
    by (auto simp: post_process_description_def Let_def split: if_splits)
  from ch have "\<not> (\<forall>kw \<in> set ?b. \<not> re_search (word_pat kw) None d)"
    using remove_keywords_unchanged by blast
  with fc d' show "\<exists>fc kw. file_context_of p brands = Some fc \<and>
       kw \<in> set (banned_keywords_of fc brands) \<and> re_search (word_pat kw) None d \<and>
       d' = repair (remove_keywords (banned_keywords_of fc brands) d)"
    by blast
qed

theorem brand_check_frame_witness:
  "file_context_of ''docs/leap/index.adoc'' [leap_brand, sleha_brand] = Some leap_brand \<and>
   post_process_description ''Install  the server ,'' ''docs/leap/index.adoc''
       [leap_brand, sleha_brand] = (''Install  the server ,'', None) \<and>
   post_process_description ''Install SLE HA now'' ''docs/leap/index.adoc''
       [leap_brand, sleha_brand] = (''Install now'', Some UPDATED) \<and>
   re_search (word_pat ''SLE HA'') None ''Install SLE HA now''"
proof -
  let ?p = "''docs/leap/index.adoc''" and ?bs = "[leap_brand, sleha_brand]"
  have a: "file_context_of ?p ?bs = Some leap_brand"
    by code_simp
  have b: "list_all (\<lambda>kw. \<not> re_search (word_pat kw) None ''Install  the server ,'')
      (banned_keywords_of leap_brand ?bs)"
    by code_simp
  have c: "post_process_description ''Install SLE HA now'' ?p ?bs =
      (''Install now'', Some UPDATED)"
    by code_simp
  have k: "banned_keywords_of leap_brand ?bs = [''SLE HA'']"
    by code_simp
  from brand_check_frame [of ?p ?bs leap_brand "''Install  the server ,''"] a b
  have 1: "post_process_description ''Install  the server ,'' ?p ?bs =
      (''Install  the server ,'', None)"
    by blast
  from brand_check_frame [of ?p ?bs _ "''Install SLE HA now''" "''Install now''"] c
  obtain fc kw where "file_context_of ?p ?bs = Some fc"
    and "kw \<in> set (banned_keywords_of fc ?bs)"
    and "re_search (word_pat kw) None ''Install SLE HA now''"
    by blast
  with a k have 2: "re_search (word_pat ''SLE HA'') None ''Install SLE HA now''"
    by simp
  from a c 1 2 show ?thesis by blast
qed

end
